theory Spec2Isabelle
  imports Complex_Main
begin

text \<open>
  A shallow embedding of \<^verbatim>\<open>lissajous.go\<close>: the rasterizer \<^verbatim>\<open>paint\<close>, the frame
  loop \<^verbatim>\<open>lissajous\<close> and \<^verbatim>\<open>main\<close>.

  \<^item> Go's \<^verbatim>\<open>int\<close> is the 64-bit two's complement integer: values are \<open>int\<close>, and the
    source's arithmetic on the size, on grid indices and on cell values goes through
    \<open>wrap64\<close>. Loop counters stay below a bound of their own type and are not wrapped.
  \<^item> A \<^verbatim>\<open>float64\<close> is the real number it denotes, and every floating-point operation of
    the source is the exact operation followed by \<open>round64\<close>, the rounding of IEEE 754
    binary64: to nearest, ties to even, 53 significant bits, gradual underflow. Operations are
    rounded one by one (the amd64 compiler does not fuse a multiplication with an addition).
    Infinities and NaN are not values of the embedding: \<open>round64\<close> does not overflow, and
    the theorems whose content depends on the value of a float bound its magnitude.
    \<^verbatim>\<open>math.Sin\<close> is taken to be the correctly rounded sine; no theorem depends on the
    values it returns.
  \<^item> A run-time panic is a value \<open>Inl\<close> of type \<open>panic\<close>; a loop that may run forever
    returns \<open>None\<close>. \<^verbatim>\<open>make\<close> panics above the allocation limit of the runtime on
    linux/amd64; running out of memory below that limit is not modelled.
  \<^item> The flags are package-level variables of the source; here they are a record that the
    frame loop passes on, updated.
\<close>

section \<open>Numbers\<close>

text \<open>The conversion \<^verbatim>\<open>int(f)\<close> truncates toward zero. Outside the range of
  \<^verbatim>\<open>int\<close> its result depends on the implementation; the value taken here is the one
  amd64 gives.\<close>

definition wrap64 :: "int \<Rightarrow> int" where
  "wrap64 n = (n + 2 ^ 63) mod 2 ^ 64 - 2 ^ 63"

definition add64 :: "int \<Rightarrow> int \<Rightarrow> int" where
  "add64 a b = wrap64 (a + b)"

definition truncate_real :: "real \<Rightarrow> int" where
  "truncate_real r = (if 0 \<le> r then \<lfloor>r\<rfloor> else \<lceil>r\<rceil>)"

definition int_of_float64 :: "real \<Rightarrow> int" where
  "int_of_float64 r =
     (let n = truncate_real r
      in if - (2 ^ 63) \<le> n \<and> n < 2 ^ 63 then n else - (2 ^ 63))"

text \<open>Rounding to \<^verbatim>\<open>float64\<close>. \<open>rne\<close> rounds a real to the nearest integer, a tie to
  the even one. \<open>expo x\<close> is the binary exponent of \<open>x\<close>, not below that of the
  smallest normal number, so that \<open>2 powi (expo x - 52)\<close> is the spacing of the floats around
  \<open>x\<close>; \<open>round64 x\<close> is the multiple of that spacing nearest to \<open>x\<close>.
  \<open>math_Pi\<close> is the constant \<^verbatim>\<open>math.Pi\<close> of the Go library, which the program
  converts to \<^verbatim>\<open>float64\<close>.\<close>

definition rne :: "real \<Rightarrow> int" where
  "rne y = (let f = \<lfloor>y\<rfloor>; d = y - real_of_int f
            in if d < 1 / 2 then f else if 1 / 2 < d then f + 1
               else if even f then f else f + 1)"

definition expo :: "real \<Rightarrow> int" where
  "expo x = max \<lfloor>log 2 \<bar>x\<bar>\<rfloor> (- 1022)"

definition round64 :: "real \<Rightarrow> real" where
  "round64 x = (if x = 0 then 0
                else real_of_int (rne (x / 2 powi (expo x - 52))) * 2 powi (expo x - 52))"

definition math_Pi :: real where
  "math_Pi = 3.14159265358979323846264338327950288419716939937510582097494459"

definition math_Sin :: "real \<Rightarrow> real" where
  "math_Sin x = round64 (sin x)"

section \<open>The rasterizer \<^verbatim>\<open>paint\<close>\<close>

text \<open>\<open>scaled\<close> is the assignment \<^verbatim>\<open>x = x * float64(scale)\<close> (lines 67 and 68),
  \<open>offsets\<close> the slice \<^verbatim>\<open>[]float64{-0.55, 0, 0.55}\<close> of both loops, and
  \<open>tap_index\<close> the index \<^verbatim>\<open>scale + int(x+xoffset)\<close> (lines 71 and 72).
  \<open>paint_tap\<close> is the body of the inner loop once \<^verbatim>\<open>intx\<close> and
  \<^verbatim>\<open>inty\<close> are computed (lines 73 to 79): the two \<^verbatim>\<open>continue\<close> tests, then the
  update of \<^verbatim>\<open>canvas[intx][inty]\<close>, which panics when the row is shorter than
  \<^verbatim>\<open>inty\<close>. \<open>paint_yloop\<close> and \<open>paint_xloop\<close> are the two \<^verbatim>\<open>range\<close> loops over
  the offsets. The grid is mutated in place in the source and returned here.\<close>

datatype panic = IndexOutOfRange | MakeLenOutOfRange | HugeDimensions

type_synonym canvas = "int list list"

definition min_go :: "int \<Rightarrow> int \<Rightarrow> int" where
  "min_go a b = (if a < b then a else b)"

definition scaled :: "real \<Rightarrow> int \<Rightarrow> real" where
  "scaled v scale = round64 (v * round64 (real_of_int scale))"

definition offsets :: "real list" where
  "offsets = [round64 (- 0.55), 0, round64 0.55]"

definition tap_index :: "int \<Rightarrow> real \<Rightarrow> real \<Rightarrow> int" where
  "tap_index scale x offset = add64 scale (int_of_float64 (round64 (x + offset)))"

definition paint_tap :: "int \<Rightarrow> int \<Rightarrow> canvas \<Rightarrow> int \<Rightarrow> panic + canvas" where
  "paint_tap intx inty canvas maxVal =
     (if intx \<ge> int (length canvas) \<or> intx < 0 then Inr canvas
      else if inty \<ge> int (length canvas) \<or> inty < 0 then Inr canvas
      else if nat inty < length (canvas ! nat intx)
        then Inr (canvas[nat intx :=
               (canvas ! nat intx)[nat inty :=
                  min_go (add64 (canvas ! nat intx ! nat inty) 1) maxVal]])
        else Inl IndexOutOfRange)"

fun paint_yloop :: "real \<Rightarrow> real \<Rightarrow> int \<Rightarrow> int \<Rightarrow> real \<Rightarrow> real list \<Rightarrow> canvas \<Rightarrow> panic + canvas" where
  "paint_yloop x y scale maxVal xoffset [] canvas = Inr canvas"
| "paint_yloop x y scale maxVal xoffset (yoffset # yoffsets) canvas =
     (let intx = tap_index scale x xoffset;
          inty = tap_index scale y yoffset
      in case paint_tap intx inty canvas maxVal of
           Inl e \<Rightarrow> Inl e
         | Inr canvas' \<Rightarrow> paint_yloop x y scale maxVal xoffset yoffsets canvas')"

fun paint_xloop :: "real \<Rightarrow> real \<Rightarrow> int \<Rightarrow> int \<Rightarrow> real list \<Rightarrow> canvas \<Rightarrow> panic + canvas" where
  "paint_xloop x y scale maxVal [] canvas = Inr canvas"
| "paint_xloop x y scale maxVal (xoffset # xoffsets) canvas =
     (case paint_yloop x y scale maxVal xoffset offsets canvas of
        Inl e \<Rightarrow> Inl e
      | Inr canvas' \<Rightarrow> paint_xloop x y scale maxVal xoffsets canvas')"

definition paint :: "real \<Rightarrow> real \<Rightarrow> int \<Rightarrow> canvas \<Rightarrow> int \<Rightarrow> panic + canvas" where
  "paint x y scale canvas maxVal =
     paint_xloop (scaled x scale) (scaled y scale) scale maxVal offsets canvas"

definition mul64 :: "int \<Rightarrow> int \<Rightarrow> int" where
  "mul64 a b = wrap64 (a * b)"

definition sub64 :: "int \<Rightarrow> int \<Rightarrow> int" where
  "sub64 a b = wrap64 (a - b)"

text \<open>\<^verbatim>\<open>make\<close> panics when the length is negative or the slice would be larger than
  \<open>maxAlloc\<close> bytes (\<^verbatim>\<open>runtime.makeslice\<close>; \<open>2 ^ 48\<close> on linux/amd64). A slice header
  takes 24 bytes, an \<^verbatim>\<open>int\<close> 8 bytes and a \<^verbatim>\<open>uint8\<close> one. \<open>make_lisa\<close> is the
  allocation of the grid, lines 92 to 95: the slice of rows, then each row.\<close>

definition maxAlloc :: int where
  "maxAlloc = 2 ^ 48"

definition make_lisa :: "int \<Rightarrow> panic + canvas" where
  "make_lisa n =
     (if n < 0 \<or> 24 * n > maxAlloc then Inl MakeLenOutOfRange
      else if 0 < n \<and> 8 * n > maxAlloc then Inl MakeLenOutOfRange
      else Inr (replicate (nat n) (replicate (nat n) 0)))"

text \<open>A sequence of \<^verbatim>\<open>paint\<close> calls on one grid with one cap, as the sweep makes
  them; each call is given by its point and its scale.\<close>

fun paint_calls :: "(real \<times> real \<times> int) list \<Rightarrow> canvas \<Rightarrow> int \<Rightarrow> panic + canvas" where
  "paint_calls [] canvas maxVal = Inr canvas"
| "paint_calls ((x, y, scale) # calls) canvas maxVal =
     (case paint x y scale canvas maxVal of
        Inl e \<Rightarrow> Inl e
      | Inr canvas' \<Rightarrow> paint_calls calls canvas' maxVal)"

section \<open>Images\<close>

text \<open>The palette is the source's. The rest of this section follows the Go standard library
  (packages \<^verbatim>\<open>image\<close> and \<^verbatim>\<open>image/color\<close>), which the program imports and
  which is not part of its sources: \<^verbatim>\<open>color.RGBA.RGBA\<close> (\<open>rgba16\<close>),
  \<^verbatim>\<open>Palette.Index\<close> with \<^verbatim>\<open>sqDiff\<close>, \<^verbatim>\<open>image.Rect\<close>,
  \<^verbatim>\<open>Point.In\<close>, \<^verbatim>\<open>image.NewPaletted\<close>, and \<^verbatim>\<open>PixOffset\<close>,
  \<^verbatim>\<open>Set\<close>, \<^verbatim>\<open>ColorIndexAt\<close> and \<^verbatim>\<open>At\<close> of \<^verbatim>\<open>*image.Paletted\<close>.
  Colour components are bytes, palette indices in \<^verbatim>\<open>Pix\<close> are bytes.\<close>

datatype rgba = RGBA nat nat nat nat

definition palette :: "rgba list" where
  "palette =
    [RGBA 0x2c 0x2f 0x34 0xff,
     RGBA 0x3b 0x3e 0x42 0xff,
     RGBA 0x4a 0x4d 0x50 0xff,
     RGBA 0x59 0x5c 0x5e 0xff,
     RGBA 0x68 0x6b 0x6c 0xff,
     RGBA 0x77 0x7a 0x7a 0xff,
     RGBA 0x86 0x89 0x88 0xff,
     RGBA 0x95 0x98 0x96 0xff,
     RGBA 0xa4 0xa7 0x94 0xff,
     RGBA 0xb3 0xb6 0xa2 0xff,
     RGBA 0xc2 0xc5 0xb0 0xff,
     RGBA 0xd1 0xd4 0xbe 0xff,
     RGBA 0xe0 0xe3 0xcc 0xff,
     RGBA 0xff 0xf2 0xda 0xff,
     RGBA 0xff 0xf1 0xe8 0xff,
     RGBA 0xff 0xff 0xff 0xff]"

fun rgba16 :: "rgba \<Rightarrow> nat \<times> nat \<times> nat \<times> nat" where
  "rgba16 (RGBA r g b a) = (r * 257, g * 257, b * 257, a * 257)"

definition sqDiff :: "nat \<Rightarrow> nat \<Rightarrow> nat" where
  "sqDiff x y = (let d = (if x > y then x - y else y - x) in (d * d) mod 2 ^ 32 div 4)"

fun Index_loop :: "rgba \<Rightarrow> nat \<Rightarrow> nat \<Rightarrow> nat \<Rightarrow> rgba list \<Rightarrow> nat" where
  "Index_loop c ret bestSum i [] = ret"
| "Index_loop c ret bestSum i (v # vs) =
     (case rgba16 c of (cr, cg, cb, ca) \<Rightarrow>
      case rgba16 v of (vr, vg, vb, va) \<Rightarrow>
        let sum = (sqDiff cr vr + sqDiff cg vg + sqDiff cb vb + sqDiff ca va) mod 2 ^ 32
        in if sum < bestSum
           then (if sum = 0 then i else Index_loop c i sum (i + 1) vs)
           else Index_loop c ret bestSum (i + 1) vs)"

definition Index :: "rgba list \<Rightarrow> rgba \<Rightarrow> nat" where
  "Index p c = Index_loop c 0 (2 ^ 32 - 1) 0 p"

record rectangle =
  MinX :: int
  MinY :: int
  MaxX :: int
  MaxY :: int

definition image_Rect :: "int \<Rightarrow> int \<Rightarrow> int \<Rightarrow> int \<Rightarrow> rectangle" where
  "image_Rect x0 y0 x1 y1 =
     \<lparr>MinX = (if x0 > x1 then x1 else x0), MinY = (if y0 > y1 then y1 else y0),
      MaxX = (if x0 > x1 then x0 else x1), MaxY = (if y0 > y1 then y0 else y1)\<rparr>"

definition In :: "int \<Rightarrow> int \<Rightarrow> rectangle \<Rightarrow> bool" where
  "In x y r = (MinX r \<le> x \<and> x < MaxX r \<and> MinY r \<le> y \<and> y < MaxY r)"

record paletted =
  Pix :: "nat list"
  Stride :: int
  Rect :: rectangle
  Palette :: "rgba list"

definition Dx :: "rectangle \<Rightarrow> int" where
  "Dx r = sub64 (MaxX r) (MinX r)"

definition Dy :: "rectangle \<Rightarrow> int" where
  "Dy r = sub64 (MaxY r) (MinY r)"

definition NewPaletted :: "rectangle \<Rightarrow> rgba list \<Rightarrow> panic + paletted" where
  "NewPaletted r p =
     (let w = Dx r; h = Dy r
      in if w < 0 \<or> h < 0 \<or> w * h \<ge> 2 ^ 63 then Inl HugeDimensions
         else if w * h > maxAlloc then Inl MakeLenOutOfRange
         else Inr \<lparr>Pix = replicate (nat (w * h)) 0, Stride = w, Rect = r, Palette = p\<rparr>)"

definition PixOffset :: "paletted \<Rightarrow> int \<Rightarrow> int \<Rightarrow> int" where
  "PixOffset p x y = (y - MinY (Rect p)) * Stride p + (x - MinX (Rect p)) * 1"

definition Set :: "paletted \<Rightarrow> int \<Rightarrow> int \<Rightarrow> rgba \<Rightarrow> paletted" where
  "Set p x y c =
     (if \<not> In x y (Rect p) then p
      else p\<lparr>Pix := (Pix p)[nat (PixOffset p x y) := Index (Palette p) c mod 256]\<rparr>)"

definition ColorIndexAt :: "paletted \<Rightarrow> int \<Rightarrow> int \<Rightarrow> nat" where
  "ColorIndexAt p x y = (if \<not> In x y (Rect p) then 0 else Pix p ! nat (PixOffset p x y))"

definition At :: "paletted \<Rightarrow> int \<Rightarrow> int \<Rightarrow> rgba option" where
  "At p x y =
     (if length (Palette p) = 0 then None
      else if \<not> In x y (Rect p) then Some (Palette p ! 0)
      else Some (Palette p ! (Pix p ! nat (PixOffset p x y))))"

section \<open>Frames and the animation\<close>

text \<open>\<open>flags\<close> holds the configuration variables of the source (\<open>size'\<close> is
  \<^verbatim>\<open>size\<close>), \<open>default_flags\<close> their defaults from \<^verbatim>\<open>init\<close>, each decimal
  default converted to the nearest \<^verbatim>\<open>float64\<close>. What the program prints is a list of
  \<open>message\<close>s. \<^verbatim>\<open>os.Create\<close> and \<^verbatim>\<open>gif.EncodeAll\<close> belong to the environment
  and are parameters of \<open>main\<close> and \<open>lissajous\<close>; a failed \<^verbatim>\<open>os.Create\<close> returns
  the nil file. \<open>gif_EncodeAll\<close> is the encoder of the Go library as far as its two checks
  on the animation; the writing is its parameter. \<^verbatim>\<open>append\<close> is taken not to fail; the
  statement that a run returns bounds the number of frames, so that the two slices stay far
  below the allocation limit.

  One iteration of the frame loop is \<open>frame\<close>: \<open>new_image\<close> (lines 88 and 89),
  \<open>make_lisa\<close> (lines 92 to 95), \<open>sweep\<close> (lines 98 to 102) and \<open>render_lisa\<close>
  (lines 105 to 109); \<open>advance\<close> is the update of lines 112 to 115. \<open>limit\<close> is the bound
  \<^verbatim>\<open>cycles*2*math.Pi\<close> of the sweep, and \<open>sweep_samples\<close> is the loop of the sweep
  with the body left out: it returns the values of \<^verbatim>\<open>t\<close> at which the body runs.\<close>

record flags =
  outFile :: string
  nframes :: int
  size' :: int
  delay :: int
  cycles :: real
  xfreq :: real
  xfreqInc :: real
  yfreq :: real
  yfreqInc :: real
  xphase :: real
  xphaseInc :: real
  yphase :: real
  yphaseInc :: real
  res :: real

record GIF =
  Image :: "paletted list"
  Delay :: "int list"
  LoopCount :: int

type_synonym error = string

datatype os_file = NilFile | File string

datatype message =
  Rendered int int
| CouldNotOpen string error
| ErrorEncoding error

definition default_flags :: flags where
  "default_flags =
     \<lparr>outFile = ''out.gif'', nframes = 1, size' = 100, delay = 8, cycles = 2,
      xfreq = 5.0, xfreqInc = 0.00, yfreq = 4.0, yfreqInc = 0.00,
      xphase = 0.0, xphaseInc = 0.00, yphase = 0.0, yphaseInc = round64 0.01,
      res = round64 0.0001\<rparr>"

definition new_image :: "int \<Rightarrow> panic + paletted" where
  "new_image s =
     NewPaletted (image_Rect 0 0 (add64 (mul64 2 s) 1) (sub64 (mul64 2 s) 1)) palette"

definition limit :: "flags \<Rightarrow> real" where
  "limit g = round64 (round64 (cycles g * 2) * round64 math_Pi)"

partial_function (option) sweep :: "flags \<Rightarrow> real \<Rightarrow> canvas \<Rightarrow> (panic + canvas) option" where
  "sweep g t lisa =
     (if t < limit g
      then (case paint (math_Sin (round64 (round64 (t * xfreq g) + xphase g)))
                   (math_Sin (round64 (round64 (t * yfreq g) + yphase g)))
                   (sub64 (size' g) 2) lisa 15 of
              Inl e \<Rightarrow> Some (Inl e)
            | Inr lisa' \<Rightarrow> sweep g (round64 (t + res g)) lisa')
      else Some (Inr lisa))"

partial_function (option) sweep_samples :: "flags \<Rightarrow> real \<Rightarrow> real list option" where
  "sweep_samples g t =
     (if t < limit g
      then Option.bind (sweep_samples g (round64 (t + res g))) (\<lambda>ts. Some (t # ts))
      else Some [])"

definition palette_at :: "int \<Rightarrow> panic + rgba" where
  "palette_at v = (if 0 \<le> v \<and> v < int (length palette) then Inr (palette ! nat v)
                   else Inl IndexOutOfRange)"

fun render_row :: "paletted \<Rightarrow> int \<Rightarrow> int \<Rightarrow> int list \<Rightarrow> panic + paletted" where
  "render_row img x y [] = Inr img"
| "render_row img x y (v # vs) =
     (case palette_at v of
        Inl e \<Rightarrow> Inl e
      | Inr c \<Rightarrow> render_row (Set img x y c) x (y + 1) vs)"

fun render_rows :: "paletted \<Rightarrow> int \<Rightarrow> canvas \<Rightarrow> panic + paletted" where
  "render_rows img x [] = Inr img"
| "render_rows img x (row # rows) =
     (case render_row img x 0 row of
        Inl e \<Rightarrow> Inl e
      | Inr img' \<Rightarrow> render_rows img' (x + 1) rows)"

definition render_lisa :: "paletted \<Rightarrow> canvas \<Rightarrow> panic + paletted" where
  "render_lisa img lisa = render_rows img 0 lisa"

definition frame :: "flags \<Rightarrow> (panic + paletted) option" where
  "frame g =
     (case new_image (size' g) of
        Inl e \<Rightarrow> Some (Inl e)
      | Inr img \<Rightarrow>
          (case make_lisa (mul64 2 (size' g)) of
             Inl e \<Rightarrow> Some (Inl e)
           | Inr lisa \<Rightarrow>
               (case sweep g 0 lisa of
                  None \<Rightarrow> None
                | Some (Inl e) \<Rightarrow> Some (Inl e)
                | Some (Inr lisa') \<Rightarrow> Some (render_lisa img lisa'))))"

definition advance :: "flags \<Rightarrow> flags" where
  "advance g = g\<lparr>xphase := round64 (xphase g + xphaseInc g),
                  yphase := round64 (yphase g + yphaseInc g),
                  xfreq := round64 (xfreq g + xfreqInc g),
                  yfreq := round64 (yfreq g + yfreqInc g)\<rparr>"

function lissajous_loop ::
  "int \<Rightarrow> flags \<Rightarrow> GIF \<Rightarrow> message list \<Rightarrow> (panic + flags \<times> GIF \<times> message list) option" where
  "lissajous_loop i g anim printed =
     (if i < nframes g
      then (case frame g of
              None \<Rightarrow> None
            | Some (Inl e) \<Rightarrow> Some (Inl e)
            | Some (Inr img) \<Rightarrow>
                lissajous_loop (i + 1) (advance g)
                  (anim\<lparr>Delay := Delay anim @ [delay g], Image := Image anim @ [img]\<rparr>)
                  (printed @ [Rendered i (nframes g)]))
      else Some (Inr (g, anim, printed)))"
  by pat_completeness auto
termination
  by (relation "measure (\<lambda>(i, g, anim, printed). nat (nframes g - i))")
     (auto simp: advance_def)

definition lissajous ::
  "flags \<Rightarrow> (os_file \<Rightarrow> GIF \<Rightarrow> error option) \<Rightarrow> os_file \<Rightarrow>
   (panic + flags \<times> GIF \<times> message list \<times> error option) option" where
  "lissajous g EncodeAll out =
     (case lissajous_loop 0 g \<lparr>Image = [], Delay = [], LoopCount = nframes g\<rparr> [] of
        None \<Rightarrow> None
      | Some (Inl e) \<Rightarrow> Some (Inl e)
      | Some (Inr (g', anim, printed)) \<Rightarrow>
          Some (Inr (g', anim, printed @ [Rendered (nframes g') (nframes g')],
                     EncodeAll out anim)))"

definition main ::
  "flags \<Rightarrow> (string \<Rightarrow> error + os_file) \<Rightarrow> (os_file \<Rightarrow> GIF \<Rightarrow> error option) \<Rightarrow>
   (panic + os_file \<times> GIF \<times> message list) option" where
  "main g Create EncodeAll =
     (let (f, printed0) =
            (case Create (outFile g) of
               Inl err \<Rightarrow> (NilFile, [CouldNotOpen (outFile g) err])
             | Inr f \<Rightarrow> (f, []))
      in case lissajous g EncodeAll f of
           None \<Rightarrow> None
         | Some (Inl e) \<Rightarrow> Some (Inl e)
         | Some (Inr (g', anim, printed, err)) \<Rightarrow>
             Some (Inr (f, anim,
               printed0 @ printed @
                 (case err of None \<Rightarrow> [] | Some e \<Rightarrow> [ErrorEncoding e]))))"


section \<open>Predicates and auxiliary functions used in the statements\<close>

text \<open>\<open>lisa_at\<close> reads a grid cell the way the index expression \<^verbatim>\<open>lisa[x][y]\<close>
  does, with \<open>None\<close> where it would panic; \<open>grid_le\<close> compares two grids of one shape
  cell by cell.\<close>

definition valid_image :: "paletted \<Rightarrow> bool" where
  "valid_image p =
     (0 \<le> MaxX (Rect p) - MinX (Rect p) \<and> 0 \<le> MaxY (Rect p) - MinY (Rect p) \<and>
      Stride p = MaxX (Rect p) - MinX (Rect p) \<and>
      length (Pix p) = nat ((MaxX (Rect p) - MinX (Rect p)) * (MaxY (Rect p) - MinY (Rect p))) \<and>
      Palette p = palette)"

definition lisa_at :: "canvas \<Rightarrow> int \<Rightarrow> int \<Rightarrow> int option" where
  "lisa_at lisa x y =
     (if 0 \<le> x \<and> nat x < length lisa \<and> 0 \<le> y \<and> nat y < length (lisa ! nat x)
      then Some (lisa ! nat x ! nat y) else None)"

fun is_rgba8 :: "rgba \<Rightarrow> bool" where
  "is_rgba8 (RGBA r g b a) = (r < 256 \<and> g < 256 \<and> b < 256 \<and> a < 256)"

definition dist16 :: "rgba \<Rightarrow> rgba \<Rightarrow> nat" where
  "dist16 c v =
     (case rgba16 c of (cr, cg, cb, ca) \<Rightarrow>
      case rgba16 v of (vr, vg, vb, va) \<Rightarrow>
        (sqDiff cr vr + sqDiff cg vg + sqDiff cb vb + sqDiff ca va) mod 2 ^ 32)"

definition is_square :: "canvas \<Rightarrow> bool" where
  "is_square canvas = list_all (\<lambda>row. length row = length canvas) canvas"

definition cells_within :: "int \<Rightarrow> int \<Rightarrow> canvas \<Rightarrow> bool" where
  "cells_within lo hi canvas = list_all (list_all (\<lambda>v. lo \<le> v \<and> v \<le> hi)) canvas"

definition grid_le :: "canvas \<Rightarrow> canvas \<Rightarrow> bool" where
  "grid_le a b = list_all2 (list_all2 (\<le>)) a b"

definition out_of_grid :: "int \<Rightarrow> canvas \<Rightarrow> bool" where
  "out_of_grid i canvas = (i \<ge> int (length canvas) \<or> i < 0)"

text \<open>\<open>is_float64 r\<close>: the real number \<open>r\<close> is a finite \<^verbatim>\<open>float64\<close>, that is,
  rounding leaves it as it is and it is below \<open>2 ^ 1024\<close> in absolute value.\<close>

definition is_float64 :: "real \<Rightarrow> bool" where
  "is_float64 r \<longleftrightarrow> round64 r = r \<and> \<bar>r\<bar> < 2 ^ 1024"

text \<open>\<open>drift x d i\<close> is \<open>x\<close> after \<open>i\<close> additions of \<open>d\<close>, each rounded to
  \<^verbatim>\<open>float64\<close>, as the statement \<^verbatim>\<open>x += d\<close> computes it once per frame.\<close>

definition drift :: "real \<Rightarrow> real \<Rightarrow> nat \<Rightarrow> real" where
  "drift x d i = ((\<lambda>v. round64 (v + d)) ^^ i) x"


definition sample :: "flags \<Rightarrow> real \<Rightarrow> real \<times> real \<times> int" where
  "sample g t =
     (math_Sin (round64 (round64 (t * xfreq g) + xphase g)),
      math_Sin (round64 (round64 (t * yfreq g) + yphase g)),
      sub64 (size' g) 2)"

text \<open>\<open>taps n i j\<close> is \<open>n\<close> runs of the loop body in a row on the cell \<open>(i, j)\<close>, which
  is what a \<^verbatim>\<open>paint\<close> call comes to when its nine candidates coincide.\<close>

fun taps :: "nat \<Rightarrow> int \<Rightarrow> int \<Rightarrow> canvas \<Rightarrow> int \<Rightarrow> panic + canvas" where
  "taps 0 i j canvas maxVal = Inr canvas"
| "taps (Suc n) i j canvas maxVal =
     (case paint_tap i j canvas maxVal of
        Inl e \<Rightarrow> Inl e
      | Inr canvas' \<Rightarrow> taps n i j canvas' maxVal)"

section \<open>Rounding to \<^verbatim>\<open>float64\<close>\<close>

lemma rne_err: "\<bar>real_of_int (rne y) - y\<bar> \<le> 1 / 2"
  unfolding rne_def Let_def by (auto; linarith)

lemma rne_of_int: "rne (real_of_int n) = n"
  by (simp add: rne_def)

lemma rne_near:
  assumes "\<bar>y - real_of_int n\<bar> < 1 / 2"
  shows "rne y = n"
proof -
  have "\<bar>real_of_int (rne y) - real_of_int n\<bar> < 1"
    using rne_err[of y] assms by linarith
  then have "\<bar>real_of_int (rne y - n)\<bar> < 1" by simp
  then have "\<bar>rne y - n\<bar> < 1" by linarith
  then show ?thesis by simp
qed

lemma rne_tie_even: "even n \<Longrightarrow> rne (real_of_int n + 1 / 2) = n"
proof -
  assume e: "even n"
  have f: "\<lfloor>real_of_int n + 1 / 2\<rfloor> = n" by linarith
  show ?thesis using e by (simp add: rne_def f Let_def)
qed

lemma powr_int_succ: "(2::real) powr (real_of_int k + 1) = 2 powi (k + 1)"
  using powr_real_of_int'[of "2::real" "k + 1"] by simp

lemma floor_log2_bounds:
  assumes "x \<noteq> 0"
  shows "2 powi \<lfloor>log 2 \<bar>x\<bar>\<rfloor> \<le> \<bar>x\<bar>" and "\<bar>x\<bar> < 2 powi (\<lfloor>log 2 \<bar>x\<bar>\<rfloor> + 1)"
proof -
  have p: "0 < \<bar>x\<bar>" using assms by simp
  have "2 powr real_of_int \<lfloor>log 2 \<bar>x\<bar>\<rfloor> \<le> \<bar>x\<bar> \<and>
        \<bar>x\<bar> < 2 powr (real_of_int \<lfloor>log 2 \<bar>x\<bar>\<rfloor> + 1)"
    using floor_log_eq_powr_iff[OF p, of 2 "\<lfloor>log 2 \<bar>x\<bar>\<rfloor>"] by simp
  then show "2 powi \<lfloor>log 2 \<bar>x\<bar>\<rfloor> \<le> \<bar>x\<bar>" and "\<bar>x\<bar> < 2 powi (\<lfloor>log 2 \<bar>x\<bar>\<rfloor> + 1)"
    by (simp_all add: powr_real_of_int' powr_int_succ)
qed

lemma floor_log2_eq:
  assumes "x \<noteq> 0" "2 powi e \<le> \<bar>x\<bar>" "\<bar>x\<bar> < 2 powi (e + 1)"
  shows "\<lfloor>log 2 \<bar>x\<bar>\<rfloor> = e"
proof -
  have p: "0 < \<bar>x\<bar>" using assms by simp
  have "2 powr real_of_int e \<le> \<bar>x\<bar> \<and> \<bar>x\<bar> < 2 powr (real_of_int e + 1)"
    using assms by (simp add: powr_real_of_int' powr_int_succ)
  then show ?thesis using floor_log_eq_powr_iff[OF p, of 2 e] by simp
qed

lemma expo_eq:
  "x \<noteq> 0 \<Longrightarrow> 2 powi e \<le> \<bar>x\<bar> \<Longrightarrow> \<bar>x\<bar> < 2 powi (e + 1) \<Longrightarrow> - 1022 \<le> e \<Longrightarrow> expo x = e"
  by (simp add: expo_def floor_log2_eq)

lemma expo_ge: "- 1022 \<le> expo x"
  by (simp add: expo_def)

lemma expo_upper: "x \<noteq> 0 \<Longrightarrow> \<bar>x\<bar> < 2 powi (expo x + 1)"
proof -
  assume x: "x \<noteq> 0"
  have "2 powi (\<lfloor>log 2 \<bar>x\<bar>\<rfloor> + 1) \<le> (2::real) powi (expo x + 1)"
    by (intro power_int_increasing) (simp_all add: expo_def)
  with floor_log2_bounds(2)[OF x] show ?thesis by linarith
qed

lemma expo_le:
  assumes "x \<noteq> 0" "\<bar>x\<bar> < 2 powi (e + 1)" "- 1022 \<le> e"
  shows "expo x \<le> e"
proof (rule ccontr)
  assume "\<not> expo x \<le> e"
  then have gt: "e + 1 \<le> expo x" by simp
  with assms(3) have "expo x = \<lfloor>log 2 \<bar>x\<bar>\<rfloor>" by (simp add: expo_def max_def split: if_splits)
  with floor_log2_bounds(1)[OF assms(1)] have "2 powi expo x \<le> \<bar>x\<bar>" by simp
  moreover have "(2::real) powi (e + 1) \<le> 2 powi expo x"
    using gt by (intro power_int_increasing) simp_all
  ultimately show False using assms(2) by linarith
qed

lemma expo_normal:
  assumes "2 powi (- 1022) \<le> \<bar>x\<bar>"
  shows "2 powi expo x \<le> \<bar>x\<bar>"
proof -
  have x: "x \<noteq> 0" using assms
    by (metis abs_zero not_le zero_less_numeral zero_less_power_int)
  show ?thesis
  proof (cases "- 1022 \<le> \<lfloor>log 2 \<bar>x\<bar>\<rfloor>")
    case True
    then have "expo x = \<lfloor>log 2 \<bar>x\<bar>\<rfloor>" by (simp add: expo_def)
    with floor_log2_bounds(1)[OF x] show ?thesis by simp
  next
    case False
    then have "expo x = - 1022" by (simp add: expo_def)
    with assms show ?thesis by simp
  qed
qed

lemma round64_zero: "round64 0 = 0"
  by (simp add: round64_def)

lemma round64_err: "\<bar>round64 x - x\<bar> \<le> 2 powi (expo x - 53)"
proof (cases "x = 0")
  case True
  then show ?thesis by (simp add: round64_def)
next
  case False
  define u :: real where "u = 2 powi (expo x - 52)"
  have u: "0 < u" by (simp add: u_def)
  have "round64 x - x = (real_of_int (rne (x / u)) - x / u) * u"
    using False u by (simp add: round64_def u_def[symmetric] algebra_simps)
  then have "\<bar>round64 x - x\<bar> = \<bar>real_of_int (rne (x / u)) - x / u\<bar> * u"
    using u by (simp add: abs_mult)
  also have "\<dots> \<le> (1 / 2) * u"
    using rne_err[of "x / u"] u by (intro mult_right_mono) simp_all
  also have "\<dots> = 2 powi (expo x - 53)"
    using power_int_add[of "2::real" "expo x - 53" 1] by (simp add: u_def)
  finally show ?thesis .
qed

lemma round64_rel_err: "\<bar>round64 x - x\<bar> \<le> \<bar>x\<bar> / 2 ^ 53 + 2 powi (- 1075)"
proof (cases "2 powi (- 1022) \<le> \<bar>x\<bar>")
  case True
  have "(2::real) powi (expo x - 53) = 2 powi expo x / 2 ^ 53"
    using power_int_diff[of "2::real" "expo x" 53] by simp
  also have "\<dots> \<le> \<bar>x\<bar> / 2 ^ 53"
    using expo_normal[OF True] by (intro divide_right_mono) simp_all
  finally have "(2::real) powi (expo x - 53) \<le> \<bar>x\<bar> / 2 ^ 53" .
  moreover have "(0::real) \<le> 2 powi (- 1075)" by simp
  ultimately show ?thesis using round64_err[of x] by linarith
next
  case False
  show ?thesis
  proof (cases "x = 0")
    case True
    then show ?thesis by (simp add: round64_def)
  next
    case x: False
    have "expo x \<le> - 1022"
    proof -
      have "\<bar>x\<bar> < 2 powi (- 1022 + 1)"
      proof -
        have "(2::real) powi (- 1022) \<le> 2 powi (- 1022 + 1)"
          by (intro power_int_increasing) simp_all
        with False show ?thesis by linarith
      qed
      then show ?thesis using x by (intro expo_le) simp_all
    qed
    with expo_ge[of x] have "expo x = - 1022" by simp
    then have "\<bar>round64 x - x\<bar> \<le> 2 powi (- 1075)" using round64_err[of x] by simp
    moreover have "0 \<le> \<bar>x\<bar> / 2 ^ 53" by simp
    ultimately show ?thesis by linarith
  qed
qed

lemma round64_grid:
  assumes "x = real_of_int k * 2 powi (expo x - 52)"
  shows "round64 x = x"
proof -
  have "x / 2 powi (expo x - 52) = real_of_int k"
    by (subst assms) simp
  then show ?thesis using assms by (simp add: round64_def rne_of_int)
qed

lemma round64_dyadic_less:
  assumes m: "\<bar>m\<bar> < 2 ^ 53" and j: "- 1074 \<le> j"
  shows "round64 (real_of_int m * 2 powi j) = real_of_int m * 2 powi j"
proof (cases "m = 0")
  case True
  then show ?thesis by (simp add: round64_zero)
next
  case False
  define x where "x = real_of_int m * 2 powi j"
  have x0: "x \<noteq> 0" using False by (simp add: x_def)
  have "real_of_int \<bar>m\<bar> < real_of_int (2 ^ 53)" using m by (simp only: of_int_less_iff)
  then have "\<bar>real_of_int m\<bar> < 2 ^ 53" by simp
  then have "\<bar>x\<bar> < 2 ^ 53 * 2 powi j"
    by (simp add: x_def abs_mult)
  also have "\<dots> = 2 powi (52 + j + 1)"
    using power_int_add[of "2::real" 53 j] by (simp add: add.commute add.left_commute)
  finally have "expo x \<le> 52 + j" using x0 j by (intro expo_le) simp_all
  then have "0 \<le> j - (expo x - 52)" by simp
  then obtain d where "j - (expo x - 52) = int d" using zero_le_imp_eq_int by blast
  then have d: "j = expo x - 52 + int d" by simp
  define E where "E = expo x"
  have pj: "2 powi j = (2::real) powi (E - 52) * 2 ^ d"
    using power_int_add[of "2::real" "E - 52" "int d"] by (simp add: d E_def)
  have "x = real_of_int m * (2 powi (E - 52) * 2 ^ d)"
    by (simp only: x_def pj)
  also have "\<dots> = real_of_int (m * 2 ^ d) * 2 powi (E - 52)"
    by simp
  finally have "x = real_of_int (m * 2 ^ d) * 2 powi (expo x - 52)"
    by (simp only: E_def)
  then have "round64 x = x" by (rule round64_grid)
  then show ?thesis by (simp add: x_def)
qed

lemma round64_dyadic:
  assumes m: "\<bar>m\<bar> \<le> 2 ^ 53" and j: "- 1074 \<le> j"
  shows "round64 (real_of_int m * 2 powi j) = real_of_int m * 2 powi j"
proof (cases "\<bar>m\<bar> < 2 ^ 53")
  case True
  then show ?thesis using j by (rule round64_dyadic_less)
next
  case False
  with m have "m = 2 ^ 53 \<or> m = - (2 ^ 53)" by auto
  then obtain s :: int where s: "\<bar>s\<bar> < 2 ^ 53" "m = s * 2 ^ 53" by (auto intro: that[of 1] that[of "- 1"])
  have "real_of_int m * 2 powi j = real_of_int s * 2 powi (j + 53)"
    using power_int_add[of "2::real" j 53] by (simp add: s(2))
  moreover have "round64 (real_of_int s * 2 powi (j + 53)) = real_of_int s * 2 powi (j + 53)"
    using s(1) j by (intro round64_dyadic_less) simp_all
  ultimately show ?thesis by simp
qed

lemma round64_of_int: "\<bar>n\<bar> \<le> 2 ^ 53 \<Longrightarrow> round64 (real_of_int n) = real_of_int n"
  using round64_dyadic[of n 0] by simp

lemma round64_eval:
  assumes "2 powi e \<le> \<bar>x\<bar>" "\<bar>x\<bar> < 2 powi (e + 1)" "- 1022 \<le> e"
    and "rne (x / 2 powi (e - 52)) = n"
  shows "round64 x = real_of_int n * 2 powi (e - 52)"
proof -
  have x: "x \<noteq> 0" using assms(1)
    by (metis abs_zero not_le zero_less_numeral zero_less_power_int)
  have "expo x = e" using x assms(1-3) by (rule expo_eq)
  then show ?thesis using x assms(4) by (simp add: round64_def)
qed

lemma rne_tie:
  assumes "2 * y = real_of_int (2 * n + 1)"
  shows "rne y = (if even n then n else n + 1)"
proof -
  have y: "y = real_of_int n + 1 / 2" using assms by simp
  have f: "\<lfloor>real_of_int n + 1 / 2\<rfloor> = n" by linarith
  show ?thesis by (simp add: rne_def y f Let_def)
qed



lemma tiny_bound: "(2::real) powi (- 1075) \<le> 1 / 2 ^ 60"
proof -
  have "(2::real) powi (- 1075) \<le> 2 powi (- 60)"
    by (intro power_int_increasing) simp_all
  then show ?thesis by (simp add: power_int_minus)
qed

lemma round64_abs_bound:
  assumes "\<bar>x\<bar> \<le> b"
  shows "\<bar>round64 x - x\<bar> \<le> b / 2 ^ 53 + 1 / 2 ^ 60"
proof -
  have "\<bar>x\<bar> / 2 ^ 53 \<le> b / 2 ^ 53" using assms by (intro divide_right_mono) simp_all
  with round64_rel_err[of x] tiny_bound show ?thesis by linarith
qed

lemma abs_near:
  fixes r c e d b :: real
  shows "\<bar>r - c\<bar> \<le> e \<Longrightarrow> \<bar>c\<bar> \<le> d \<Longrightarrow> d + e < b \<Longrightarrow> \<bar>r\<bar> < b"
  by linarith

lemma round64_math_Pi: "round64 math_Pi = 884279719003555 / 2 ^ 48"
proof -
  have "rne (math_Pi / 2 powi (1 - 52)) = 7074237752028440"
    by (rule rne_near) (simp add: math_Pi_def power_int_minus)
  from round64_eval[of 1 math_Pi, OF _ _ _ this] show ?thesis
    by (simp add: math_Pi_def power_int_minus)
qed

lemma round64_yphaseInc: "round64 0.01 = 5764607523034235 / 2 ^ 59"
proof -
  have "rne (0.01 / 2 powi (- 7 - 52)) = 5764607523034235"
    by (rule rne_near) (simp add: power_int_minus)
  from round64_eval[of "- 7" "0.01", OF _ _ _ this] show ?thesis
    by (simp add: power_int_minus)
qed

lemma round64_res: "round64 0.0001 = 7378697629483821 / 2 ^ 66"
proof -
  have "rne (0.0001 / 2 powi (- 14 - 52)) = 7378697629483821"
    by (rule rne_near) (simp add: power_int_minus)
  from round64_eval[of "- 14" "0.0001", OF _ _ _ this] show ?thesis
    by (simp add: power_int_minus)
qed

lemma round64_succ_2_53: "round64 (2 ^ 53 + 1) = 2 ^ 53"
proof -
  have "rne ((2 ^ 53 + 1) / 2 powi (53 - 52)) = 2 ^ 52"
    using rne_tie[of "(2 ^ 53 + 1) / 2" "2 ^ 52"] by simp
  from round64_eval[of 53 "2 ^ 53 + 1", OF _ _ _ this] show ?thesis by simp
qed

lemma round64_of_nat: "k \<le> 2 ^ 53 \<Longrightarrow> round64 (real k) = real k"
  using round64_of_int[of "int k"] by simp

section \<open>Invariants of \<^verbatim>\<open>paint\<close>\<close>

lemma wrap64_id: "- (2 ^ 63) \<le> n \<Longrightarrow> n < 2 ^ 63 \<Longrightarrow> wrap64 n = n"
  by (simp add: wrap64_def)

lemma grid_le_refl: "grid_le a a"
  by (simp add: grid_le_def list_all2_same)

lemma grid_le_trans: "grid_le a b \<Longrightarrow> grid_le b c \<Longrightarrow> grid_le a c"
  unfolding grid_le_def
  by (erule list_all2_trans[rotated], assumption) (auto elim: list_all2_trans[rotated])

lemma paint_tap_square:
  assumes "is_square canvas"
  shows "\<exists>c'. paint_tap i j canvas m = Inr c' \<and> is_square c' \<and> length c' = length canvas"
proof (cases "out_of_grid i canvas \<or> out_of_grid j canvas")
  case True
  then show ?thesis using assms by (auto simp: paint_tap_def out_of_grid_def)
next
  case False
  then have i: "0 \<le> i" "nat i < length canvas" and j: "0 \<le> j" "nat j < length canvas"
    by (auto simp: out_of_grid_def)
  from assms i have row: "length (canvas ! nat i) = length canvas"
    by (simp add: is_square_def list_all_length)
  have "is_square (canvas[nat i := (canvas ! nat i)[nat j := v]])" for v
    using assms row i by (auto simp: is_square_def list_all_length nth_list_update)
  then show ?thesis using i j row False
    by (simp add: paint_tap_def out_of_grid_def)
qed

lemma paint_tap_within:
  assumes "cells_within 0 m canvas" and "m < 2 ^ 63 - 1" and "paint_tap i j canvas m = Inr c'"
  shows "cells_within 0 m c' \<and> grid_le canvas c'"
proof (cases "out_of_grid i canvas \<or> out_of_grid j canvas")
  case True
  then have "c' = canvas" using assms(3)
    by (auto simp: paint_tap_def out_of_grid_def split: if_splits)
  then show ?thesis using assms(1) by (simp add: grid_le_refl)
next
  case False
  then have i: "0 \<le> i" "nat i < length canvas" and j: "0 \<le> j" "nat j < length canvas"
    by (auto simp: out_of_grid_def)
  with assms(3) False have jr: "nat j < length (canvas ! nat i)"
    by (auto simp: paint_tap_def out_of_grid_def split: if_splits)
  define v where "v = canvas ! nat i ! nat j"
  define w where "w = min_go (add64 v 1) m"
  have c': "c' = canvas[nat i := (canvas ! nat i)[nat j := w]]"
    using assms(3) False jr by (auto simp: paint_tap_def out_of_grid_def v_def w_def)
  have v: "0 \<le> v" "v \<le> m"
    using assms(1) i jr by (auto simp: cells_within_def list_all_length v_def)
  then have "add64 v 1 = v + 1" using assms(2) by (simp add: add64_def wrap64_id)
  then have w: "0 \<le> w" "w \<le> m" "v \<le> w" using v by (auto simp: w_def min_go_def)
  have 1: "cells_within 0 m c'"
    using assms(1) w i jr unfolding c' cells_within_def list_all_length
    by (auto simp: nth_list_update)
  have 2: "grid_le canvas c'"
    using w(3) i jr unfolding c' grid_le_def list_all2_conv_all_nth v_def
    by (auto simp: nth_list_update)
  from 1 2 show ?thesis ..
qed

lemma paint_yloop_square:
  "is_square canvas \<Longrightarrow>
   \<exists>c'. paint_yloop x y scale m xo ys canvas = Inr c' \<and> is_square c' \<and> length c' = length canvas"
proof (induction ys arbitrary: canvas)
  case Nil
  then show ?case by simp
next
  case (Cons yo ys)
  obtain c1 where c1: "paint_tap (tap_index scale x xo) (tap_index scale y yo) canvas m = Inr c1"
    "is_square c1" "length c1 = length canvas"
    using paint_tap_square[OF Cons.prems] by blast
  from Cons.IH[OF c1(2)] c1 show ?case by (simp add: Let_def)
qed

lemma paint_xloop_square:
  "is_square canvas \<Longrightarrow>
   \<exists>c'. paint_xloop x y scale m xs canvas = Inr c' \<and> is_square c' \<and> length c' = length canvas"
proof (induction xs arbitrary: canvas)
  case Nil
  then show ?case by simp
next
  case (Cons xo xs)
  obtain c1 where c1: "paint_yloop x y scale m xo offsets canvas = Inr c1"
    "is_square c1" "length c1 = length canvas"
    using paint_yloop_square[OF Cons.prems] by blast
  from Cons.IH[OF c1(2)] c1 show ?case by simp
qed

lemma paint_square:
  "is_square canvas \<Longrightarrow>
   \<exists>c'. paint x y scale canvas m = Inr c' \<and> is_square c' \<and> length c' = length canvas"
  unfolding paint_def by (rule paint_xloop_square)

lemma paint_yloop_within:
  "cells_within 0 m canvas \<Longrightarrow> m < 2 ^ 63 - 1 \<Longrightarrow>
   paint_yloop x y scale m xo ys canvas = Inr c' \<Longrightarrow>
   cells_within 0 m c' \<and> grid_le canvas c'"
proof (induction ys arbitrary: canvas)
  case Nil
  then show ?case by (simp add: grid_le_refl)
next
  case (Cons yo ys)
  from Cons.prems(3) obtain c1 where
    c1: "paint_tap (tap_index scale x xo) (tap_index scale y yo) canvas m = Inr c1"
    and rest: "paint_yloop x y scale m xo ys c1 = Inr c'"
    by (auto simp: Let_def split: sum.splits)
  from paint_tap_within[OF Cons.prems(1,2) c1]
  have 1: "cells_within 0 m c1" and 2: "grid_le canvas c1" by simp_all
  from Cons.IH[OF 1 Cons.prems(2) rest] 2 show ?case
    by (auto intro: grid_le_trans)
qed

lemma paint_xloop_within:
  "cells_within 0 m canvas \<Longrightarrow> m < 2 ^ 63 - 1 \<Longrightarrow>
   paint_xloop x y scale m xs canvas = Inr c' \<Longrightarrow>
   cells_within 0 m c' \<and> grid_le canvas c'"
proof (induction xs arbitrary: canvas)
  case Nil
  then show ?case by (simp add: grid_le_refl)
next
  case (Cons xo xs)
  from Cons.prems(3) obtain c1 where
    c1: "paint_yloop x y scale m xo offsets canvas = Inr c1"
    and rest: "paint_xloop x y scale m xs c1 = Inr c'"
    by (auto split: sum.splits)
  from paint_yloop_within[OF Cons.prems(1,2) c1]
  have 1: "cells_within 0 m c1" and 2: "grid_le canvas c1" by simp_all
  from Cons.IH[OF 1 Cons.prems(2) rest] 2 show ?case
    by (auto intro: grid_le_trans)
qed

lemma paint_within:
  "cells_within 0 m canvas \<Longrightarrow> m < 2 ^ 63 - 1 \<Longrightarrow>
   paint x y scale canvas m = Inr c' \<Longrightarrow>
   cells_within 0 m c' \<and> grid_le canvas c'"
  unfolding paint_def by (rule paint_xloop_within)

lemma paint_calls_within:
  "cells_within 0 m canvas \<Longrightarrow> m < 2 ^ 63 - 1 \<Longrightarrow>
   paint_calls calls canvas m = Inr c' \<Longrightarrow>
   cells_within 0 m c' \<and> grid_le canvas c'"
proof (induction calls canvas m rule: paint_calls.induct)
  case (1 canvas maxVal)
  then show ?case by (simp add: grid_le_refl)
next
  case (2 x y scale calls canvas maxVal)
  from "2.prems"(3) obtain c1 where
    c1: "paint x y scale canvas maxVal = Inr c1"
    and rest: "paint_calls calls c1 maxVal = Inr c'"
    by (auto split: sum.splits)
  from paint_within[OF "2.prems"(1,2) c1]
  have 1: "cells_within 0 maxVal c1" and 2: "grid_le canvas c1" by simp_all
  from "2.IH"[OF c1 1 "2.prems"(2) rest] 2 show ?case
    by (auto intro: grid_le_trans)
qed

lemma paint_calls_square:
  "is_square canvas \<Longrightarrow>
   \<exists>c'. paint_calls calls canvas m = Inr c' \<and> is_square c' \<and> length c' = length canvas"
proof (induction calls canvas m rule: paint_calls.induct)
  case (1 canvas maxVal)
  then show ?case by simp
next
  case (2 x y scale calls canvas maxVal)
  obtain c1 where c1: "paint x y scale canvas maxVal = Inr c1"
    "is_square c1" "length c1 = length canvas"
    using paint_square[OF "2.prems"] by blast
  from "2.IH"[OF c1(1,2)] c1 show ?case by simp
qed





lemma truncate_real_abs: "\<bar>real_of_int (truncate_real r)\<bar> \<le> \<bar>r\<bar>"
  unfolding truncate_real_def by (auto; linarith)


lemma int_of_float64_small: "\<bar>r\<bar> < 1 \<Longrightarrow> int_of_float64 r = 0"
proof -
  assume r: "\<bar>r\<bar> < 1"
  have "\<bar>real_of_int (truncate_real r)\<bar> < 1" using truncate_real_abs[of r] r by linarith
  then have "\<bar>truncate_real r\<bar> < 1" by linarith
  then have "truncate_real r = 0" by simp
  then show ?thesis by (simp add: int_of_float64_def)
qed

lemma offsets_abs: "offset \<in> set offsets \<Longrightarrow> \<bar>offset\<bar> \<le> 0.56"
proof -
  assume "offset \<in> set offsets"
  then have c: "offset = round64 (- 0.55) \<or> offset = 0 \<or> offset = round64 0.55"
    by (simp add: offsets_def)
  have "\<bar>round64 (- 0.55) - (- 0.55)\<bar> \<le> 0.55 / 2 ^ 53 + 1 / 2 ^ 60"
    by (rule round64_abs_bound) simp
  then have "\<bar>round64 (- 0.55)\<bar> < 0.56" by (rule abs_near[where d = "0.55"]) simp_all
  then have a: "\<bar>round64 (- 0.55)\<bar> \<le> 0.56" by simp
  have "\<bar>round64 0.55 - 0.55\<bar> \<le> 0.55 / 2 ^ 53 + 1 / 2 ^ 60"
    by (rule round64_abs_bound) simp
  then have "\<bar>round64 0.55\<bar> < 0.56" by (rule abs_near[where d = "0.55"]) simp_all
  then have b: "\<bar>round64 0.55\<bar> \<le> 0.56" by simp
  from c a b show ?thesis by auto
qed

lemma offsets_list: "\<exists>a b. offsets = [a, 0, b]"
  by (simp add: offsets_def)

lemma tap_index_origin:
  assumes "offset \<in> set offsets"
  shows "tap_index scale 0 offset = add64 scale 0"
proof -
  have o: "\<bar>offset\<bar> \<le> 0.56" using assms by (rule offsets_abs)
  then have "\<bar>round64 offset - offset\<bar> \<le> 0.56 / 2 ^ 53 + 1 / 2 ^ 60"
    by (rule round64_abs_bound)
  then have "\<bar>round64 offset\<bar> < 1" using o by (rule abs_near) simp
  then have "int_of_float64 (round64 offset) = 0" by (rule int_of_float64_small)
  then show ?thesis by (simp add: tap_index_def)
qed

lemma taps_add:
  "taps (n + k) i j canvas m =
     (case taps n i j canvas m of Inl e \<Rightarrow> Inl e | Inr canvas' \<Rightarrow> taps k i j canvas' m)"
  by (induction n arbitrary: canvas) (simp_all split: sum.splits)

lemma paint_yloop_coincide:
  assumes "tap_index scale x xo = i" "\<And>yo. yo \<in> set ys \<Longrightarrow> tap_index scale y yo = j"
  shows "paint_yloop x y scale m xo ys canvas = taps (length ys) i j canvas m"
  using assms(2)
proof (induction ys arbitrary: canvas)
  case Nil
  then show ?case by simp
next
  case (Cons yo ys)
  then have "tap_index scale y yo = j"
    and "\<And>c. paint_yloop x y scale m xo ys c = taps (length ys) i j c m"
    by simp_all
  then show ?case by (simp add: assms(1) Let_def split: sum.splits)
qed

lemma paint_xloop_coincide:
  assumes "\<And>xo. xo \<in> set xs \<Longrightarrow> tap_index scale x xo = i"
    and "\<And>yo. yo \<in> set offsets \<Longrightarrow> tap_index scale y yo = j"
  shows "paint_xloop x y scale m xs canvas = taps (length xs * 3) i j canvas m"
  using assms(1)
proof (induction xs arbitrary: canvas)
  case Nil
  then show ?case by simp
next
  case (Cons xo xs)
  then have x: "tap_index scale x xo = i"
    and ih: "\<And>c. paint_xloop x y scale m xs c = taps (length xs * 3) i j c m"
    by simp_all
  have "length offsets = 3" by (simp add: offsets_def)
  with paint_yloop_coincide[OF x assms(2), of offsets]
  have y: "paint_yloop x y scale m xo offsets c = taps 3 i j c m" for c by simp
  have "taps (length (xo # xs) * 3) i j canvas m = taps (3 + length xs * 3) i j canvas m"
    by simp
  also have "\<dots> = (case taps 3 i j canvas m of Inl e \<Rightarrow> Inl e
                     | Inr c' \<Rightarrow> taps (length xs * 3) i j c' m)"
    by (rule taps_add)
  finally have r: "taps (length (xo # xs) * 3) i j canvas m =
      (case taps 3 i j canvas m of Inl e \<Rightarrow> Inl e
       | Inr c' \<Rightarrow> taps (length xs * 3) i j c' m)" .
  have l: "paint_xloop x y scale m (xo # xs) canvas =
      (case taps 3 i j canvas m of Inl e \<Rightarrow> Inl e
       | Inr c' \<Rightarrow> taps (length xs * 3) i j c' m)"
    by (simp add: y ih split: sum.splits)
  show ?case by (simp only: l r)
qed

lemma paint_coincide:
  assumes x: "\<And>offset. offset \<in> set offsets \<Longrightarrow> tap_index scale (scaled x scale) offset = i"
    and y: "\<And>offset. offset \<in> set offsets \<Longrightarrow> tap_index scale (scaled y scale) offset = j"
  shows "paint x y scale canvas m = taps 9 i j canvas m"
proof -
  have "length offsets * 3 = 9" by (simp add: offsets_def)
  with paint_xloop_coincide[of offsets scale "scaled x scale" i "scaled y scale" j m canvas] x y
  show ?thesis by (simp add: paint_def)
qed

lemma paint_origin: "paint 0 0 scale canvas m = taps 9 (add64 scale 0) (add64 scale 0) canvas m"
proof (rule paint_coincide)
  have s: "scaled 0 scale = 0" by (simp add: scaled_def round64_zero)
  show "tap_index scale (scaled 0 scale) offset = add64 scale 0" if "offset \<in> set offsets" for offset
    using that by (simp add: s tap_index_origin)
  show "tap_index scale (scaled 0 scale) offset = add64 scale 0" if "offset \<in> set offsets" for offset
    using that by (simp add: s tap_index_origin)
qed







section \<open>Properties of the rasterizer\<close>

text \<open>C2. A single call \<open>paint(0, 0, 8)\<close> on a fresh all-zero 20 by 20 grid: the claim
  expects the nine cells with row and column in 7, 8, 9 to be raised by one each. The conversion
  \<open>int(x + xoffset)\<close> truncates toward zero, so \<open>-0.55\<close>, \<open>0\<close> and
  \<open>0.55\<close> all become 0: cell (7, 7) and cell (9, 9) stay 0 and cell (8, 8) is hit by all
  nine taps.\<close>

theorem paint_origin_counterexample:
  "\<not> isl (paint 0 0 8 (replicate 20 (replicate 20 0)) 15) \<and>
   projr (paint 0 0 8 (replicate 20 (replicate 20 0)) 15) ! 7 ! 7 = 0 \<and>
   projr (paint 0 0 8 (replicate 20 (replicate 20 0)) 15) ! 9 ! 9 = 0 \<and>
   projr (paint 0 0 8 (replicate 20 (replicate 20 0)) 15) ! 8 ! 8 = 9"
  by (simp add: paint_origin eval_nat_numeral paint_tap_def add64_def wrap64_def min_go_def)

text \<open>C2, as the code has it: the call changes cell (8, 8) only, adding the nine taps to it
  (saturating at the cap \<open>maxVal\<close>), and leaves every other cell 0.\<close>

theorem paint_origin_single_cell:
  "9 \<le> maxVal \<Longrightarrow>
   paint 0 0 8 (replicate 20 (replicate 20 0)) maxVal =
     Inr ((replicate 20 (replicate 20 0))[8 := (replicate 20 0)[8 := 9]])"
  by (simp add: paint_origin eval_nat_numeral paint_tap_def add64_def wrap64_def min_go_def)

theorem paint_origin_single_cell_witness:
  "(9::int) \<le> 15 \<and>
   paint 0 0 8 (replicate 20 (replicate 20 0)) 15 =
     Inr ((replicate 20 (replicate 20 0))[8 := (replicate 20 0)[8 := 9]])"
  using paint_origin_single_cell[of 15] by simp

text \<open>C3. Saturation law: on a grid whose cells all lie between 0 and the cap, any sequence of
  \<open>paint\<close> calls that returns leaves every cell between 0 and the cap and no cell lower
  than it was (\<open>grid_le\<close> compares the two grids cell by cell); on a square grid the
  sequence always returns. The cap is below the largest 64-bit integer, so that
  \<open>canvas[intx][inty]+1\<close> does not wrap; the program's cap is 15.\<close>

theorem paint_saturation:
  assumes "cells_within 0 maxVal canvas" and "maxVal < 2 ^ 63 - 1"
  shows "(\<forall>canvas'. paint_calls calls canvas maxVal = Inr canvas' \<longrightarrow>
            cells_within 0 maxVal canvas' \<and> grid_le canvas canvas') \<and>
         (is_square canvas \<longrightarrow> (\<exists>canvas'. paint_calls calls canvas maxVal = Inr canvas'))"
proof (intro conjI allI impI)
  fix canvas'
  assume r: "paint_calls calls canvas maxVal = Inr canvas'"
  from paint_calls_within[OF assms r]
  show "cells_within 0 maxVal canvas'" and "grid_le canvas canvas'" by simp_all
next
  assume "is_square canvas"
  from paint_calls_square[OF this, of calls maxVal]
  show "\<exists>canvas'. paint_calls calls canvas maxVal = Inr canvas'" by blast
qed

theorem paint_saturation_witness:
  "cells_within 0 15 (replicate 20 (replicate 20 0)) \<and> (15::int) < 2 ^ 63 - 1 \<and>
   is_square (replicate 20 (replicate 20 0)) \<and>
   paint_calls [(0, 0, 8), (0, 0, 8)] (replicate 20 (replicate 20 0)) 15 =
     Inr ((replicate 20 (replicate 20 0))[8 := (replicate 20 0)[8 := 15]]) \<and>
   cells_within 0 15 ((replicate 20 (replicate 20 0))[8 := (replicate 20 0)[8 := 15]]) \<and>
   grid_le (replicate 20 (replicate 20 0))
     ((replicate 20 (replicate 20 0))[8 := (replicate 20 0)[8 := 15]])"
proof -
  have h1: "cells_within 0 15 (replicate 20 (replicate 20 0))"
    by (simp add: cells_within_def list_all_length)
  have h2: "(15::int) < 2 ^ 63 - 1" by simp
  have h3: "is_square (replicate 20 (replicate 20 0))"
    by (simp add: is_square_def list_all_length)
  have ev: "paint_calls [(0, 0, 8), (0, 0, 8)] (replicate 20 (replicate 20 0)) 15 =
     Inr ((replicate 20 (replicate 20 0))[8 := (replicate 20 0)[8 := 15]])"
    by (simp add: paint_origin eval_nat_numeral paint_tap_def add64_def wrap64_def min_go_def)
  from paint_saturation[OF h1 h2, of "[(0, 0, 8), (0, 0, 8)]"] ev
  have "cells_within 0 15 ((replicate 20 (replicate 20 0))[8 := (replicate 20 0)[8 := 15]]) \<and>
        grid_le (replicate 20 (replicate 20 0))
          ((replicate 20 (replicate 20 0))[8 := (replicate 20 0)[8 := 15]])"
    by simp
  with h1 h2 h3 ev show ?thesis by simp
qed




text \<open>C10. On a square grid \<open>paint\<close> never indexes out of range, whatever the point,
  the scale and the cap: it returns a grid (never the panic), and the grid keeps its shape. Both
  indices are compared with the number of rows, which is why the rows must be that long.\<close>

theorem paint_total_on_square_grid:
  "is_square canvas \<Longrightarrow>
   \<exists>canvas'. paint x y scale canvas maxVal = Inr canvas' \<and>
     is_square canvas' \<and> length canvas' = length canvas"
  by (rule paint_square)

theorem paint_total_on_square_grid_witness:
  "is_square (replicate 20 (replicate 20 0)) \<and>
   (\<exists>canvas'. paint (1 / 2) (- 1) 8 (replicate 20 (replicate 20 0)) 15 = Inr canvas' \<and>
     is_square canvas' \<and> length canvas' = length (replicate 20 (replicate 20 (0::int))))"
proof -
  have h: "is_square (replicate 20 (replicate 20 0))"
    by (simp add: is_square_def list_all_length)
  from paint_total_on_square_grid[OF h, of "1 / 2" "- 1" 8 15] h show ?thesis by simp
qed

lemma paint_ragged_grid_panics: "paint 0 0 1 [[0, 0], [0]] 15 = Inl IndexOutOfRange"
  by (simp add: paint_origin eval_nat_numeral paint_tap_def add64_def wrap64_def min_go_def)

section \<open>Palette lookup\<close>

lemma sqDiff_same: "sqDiff x x = 0"
  by (simp add: sqDiff_def)

lemma sqDiff_257:
  assumes "a < 256" "b < 256" "a \<noteq> b"
  shows "0 < sqDiff (a * 257) (b * 257) \<and> sqDiff (a * 257) (b * 257) < 2 ^ 30"
proof -
  define x where "x = a * 257"
  define y where "y = b * 257"
  define d where "d = (if x > y then x - y else y - x)"
  have sq: "sqDiff x y = d * d mod 2 ^ 32 div 4"
    by (simp add: sqDiff_def d_def Let_def)
  have d: "d = (if a > b then (a - b) * 257 else (b - a) * 257)"
    by (simp add: d_def x_def y_def diff_mult_distrib)
  have d1: "257 \<le> d" using assms by (auto simp: d)
  have d2: "d < 2 ^ 16" using assms by (auto simp: d)
  have lo: "4 \<le> d * d" using mult_le_mono[OF d1 d1] by simp
  have "d * d < 2 ^ 16 * 2 ^ 16" using d2 by (intro mult_strict_mono) simp_all
  then have hi: "d * d < 2 ^ 32" by simp
  then have "d * d mod 2 ^ 32 = d * d" by simp
  then have "sqDiff x y = d * d div 4" by (simp add: sq)
  moreover have "0 < d * d div 4" using lo by (simp add: div_greater_zero_iff)
  moreover have "d * d div 4 < 2 ^ 30" using hi by simp
  ultimately show ?thesis by (simp add: x_def y_def)
qed

lemma sqDiff_257_le: "a < 256 \<Longrightarrow> b < 256 \<Longrightarrow> sqDiff (a * 257) (b * 257) < 2 ^ 30"
  using sqDiff_257[of a b] by (cases "a = b") (simp_all add: sqDiff_same)

lemma dist16_same: "dist16 c c = 0"
  by (cases c) (simp add: dist16_def sqDiff_same)

lemma dist16_pos:
  assumes "is_rgba8 c" "is_rgba8 v" "c \<noteq> v"
  shows "0 < dist16 c v"
proof -
  obtain r g b a where c: "c = RGBA r g b a" by (cases c)
  obtain r' g' b' a' where v: "v = RGBA r' g' b' a'" by (cases v)
  have le: "r < 256" "g < 256" "b < 256" "a < 256" "r' < 256" "g' < 256" "b' < 256" "a' < 256"
    using assms by (simp_all add: c v)
  let ?s = "sqDiff (r * 257) (r' * 257) + sqDiff (g * 257) (g' * 257) +
            sqDiff (b * 257) (b' * 257) + sqDiff (a * 257) (a' * 257)"
  have "?s < 2 ^ 32"
    using sqDiff_257_le[OF le(1) le(5)] sqDiff_257_le[OF le(2) le(6)]
      sqDiff_257_le[OF le(3) le(7)] sqDiff_257_le[OF le(4) le(8)] by simp
  then have m: "dist16 c v = ?s" by (simp add: dist16_def c v)
  from assms(3) have "r \<noteq> r' \<or> g \<noteq> g' \<or> b \<noteq> b' \<or> a \<noteq> a'" by (simp add: c v)
  then have "0 < ?s"
    using sqDiff_257[OF le(1) le(5)] sqDiff_257[OF le(2) le(6)]
      sqDiff_257[OF le(3) le(7)] sqDiff_257[OF le(4) le(8)] by auto
  with m show ?thesis by simp
qed

lemma Index_loop_dist16:
  "Index_loop c ret bestSum i (v # vs) =
     (if dist16 c v < bestSum
      then (if dist16 c v = 0 then i else Index_loop c i (dist16 c v) (i + 1) vs)
      else Index_loop c ret bestSum (i + 1) vs)"
  by (simp add: dist16_def Let_def split: prod.splits)

lemma Index_loop_first:
  "k < length vs \<Longrightarrow> vs ! k = c \<Longrightarrow> distinct vs \<Longrightarrow> list_all is_rgba8 vs \<Longrightarrow>
   0 < bestSum \<Longrightarrow> Index_loop c ret bestSum i vs = i + k"
proof (induction vs arbitrary: k ret bestSum i)
  case Nil
  then show ?case by simp
next
  case (Cons v vs)
  show ?case
  proof (cases k)
    case 0
    with Cons.prems show ?thesis
      by (simp add: Index_loop_dist16 dist16_same del: Index_loop.simps)
  next
    case (Suc k')
    with Cons.prems have k': "k' < length vs" "vs ! k' = c" "distinct vs" "list_all is_rgba8 vs"
      by simp_all
    from Cons.prems Suc have "is_rgba8 c" "is_rgba8 v" "c \<noteq> v"
      by (auto simp: list_all_iff)
    then have pos: "0 < dist16 c v" by (rule dist16_pos)
    show ?thesis
      using pos Cons.IH[OF k' pos] Cons.IH[OF k' Cons.prems(5)] Suc
      by (simp add: Index_loop_dist16 del: Index_loop.simps)
  qed
qed

lemma palette_ok: "distinct palette \<and> list_all is_rgba8 palette \<and> length palette = 16"
  by (simp add: palette_def)

lemma Index_palette: "k < 16 \<Longrightarrow> Index palette (palette ! k) = k"
  unfolding Index_def
  using Index_loop_first[of k palette "palette ! k" "2 ^ 32 - 1" 0 0] palette_ok
  by simp

section \<open>Drawing the grid onto the image\<close>

lemma offset_bound:
  fixes a b w h :: int
  assumes "0 \<le> a" "a < h" "0 \<le> b" "b < w"
  shows "0 \<le> a * w + b \<and> a * w + b < w * h"
proof -
  have w: "0 \<le> w" using assms by simp
  have "a * w \<le> (h - 1) * w" using assms w by (intro mult_right_mono) simp_all
  then have "a * w + b < (h - 1) * w + w" using assms by linarith
  also have "\<dots> = w * h" by (simp add: algebra_simps)
  finally have "a * w + b < w * h" .
  moreover have "0 \<le> a * w" using assms w by simp
  ultimately show ?thesis using assms by simp
qed

lemma offset_inj:
  fixes a b a' b' w :: int
  assumes "0 \<le> b" "b < w" "0 \<le> b'" "b' < w" "a * w + b = a' * w + b'"
  shows "a = a' \<and> b = b'"
proof -
  have "(a * w + b) div w = a" "(a * w + b) mod w = b"
    using assms(1,2) by simp_all
  moreover have "(a' * w + b') div w = a'" "(a' * w + b') mod w = b'"
    using assms(3,4) by simp_all
  ultimately show ?thesis using assms(5) by simp
qed

lemma PixOffset_range:
  assumes "valid_image p" "In x y (Rect p)"
  shows "0 \<le> PixOffset p x y \<and> nat (PixOffset p x y) < length (Pix p)"
proof -
  let ?w = "MaxX (Rect p) - MinX (Rect p)" and ?h = "MaxY (Rect p) - MinY (Rect p)"
  have "0 \<le> (y - MinY (Rect p)) * ?w + (x - MinX (Rect p)) \<and>
        (y - MinY (Rect p)) * ?w + (x - MinX (Rect p)) < ?w * ?h"
    using assms(2) by (intro offset_bound) (simp_all add: In_def)
  then show ?thesis using assms(1) by (simp add: valid_image_def PixOffset_def)
qed

lemma PixOffset_inj:
  assumes "valid_image p" "In x y (Rect p)" "In x' y' (Rect p)"
    "PixOffset p x y = PixOffset p x' y'"
  shows "x = x' \<and> y = y'"
proof -
  let ?w = "MaxX (Rect p) - MinX (Rect p)"
  have "y - MinY (Rect p) = y' - MinY (Rect p) \<and> x - MinX (Rect p) = x' - MinX (Rect p)"
    using assms by (intro offset_inj[where w = ?w]) (simp_all add: In_def PixOffset_def valid_image_def)
  then show ?thesis by simp
qed

lemma Set_props:
  assumes "valid_image p"
  shows "valid_image (Set p x y c)" and "Rect (Set p x y c) = Rect p"
    and "In x' y' (Rect p) \<Longrightarrow>
         ColorIndexAt (Set p x y c) x' y' =
           (if x' = x \<and> y' = y then Index palette c mod 256 else ColorIndexAt p x' y')"
proof -
  show "valid_image (Set p x y c)" using assms by (simp add: Set_def valid_image_def)
  show "Rect (Set p x y c) = Rect p" by (simp add: Set_def)
  assume i: "In x' y' (Rect p)"
  show "ColorIndexAt (Set p x y c) x' y' =
           (if x' = x \<and> y' = y then Index palette c mod 256 else ColorIndexAt p x' y')"
  proof (cases "In x y (Rect p)")
    case False
    with i show ?thesis by (auto simp: Set_def)
  next
    case True
    have pal: "Palette p = palette" using assms by (simp add: valid_image_def)
    have r: "0 \<le> PixOffset p x y" "nat (PixOffset p x y) < length (Pix p)"
      "0 \<le> PixOffset p x' y'" "nat (PixOffset p x' y') < length (Pix p)"
      using PixOffset_range[OF assms True] PixOffset_range[OF assms i] by simp_all
    have off: "PixOffset (Set p x y c) x' y' = PixOffset p x' y'"
      by (simp add: Set_def PixOffset_def)
    show ?thesis
    proof (cases "x' = x \<and> y' = y")
      case True
      with \<open>In x y (Rect p)\<close> r pal show ?thesis
        by (simp add: ColorIndexAt_def Set_def PixOffset_def)
    next
      case False
      then have "PixOffset p x y \<noteq> PixOffset p x' y'"
        using PixOffset_inj[OF assms True i] by auto
      then have ne: "nat (PixOffset p x y) \<noteq> nat (PixOffset p x' y')" using r by simp
      have "Pix (Set p x y c) = (Pix p)[nat (PixOffset p x y) := Index (Palette p) c mod 256]"
        using True by (simp add: Set_def)
      then have "Pix (Set p x y c) ! nat (PixOffset p x' y') = Pix p ! nat (PixOffset p x' y')"
        using ne by simp
      then have "ColorIndexAt (Set p x y c) x' y' = ColorIndexAt p x' y'"
        using i off \<open>Rect (Set p x y c) = Rect p\<close> by (simp add: ColorIndexAt_def)
      with False show ?thesis by auto
    qed
  qed
qed

lemma palette_at_ok: "0 \<le> v \<Longrightarrow> v \<le> 15 \<Longrightarrow> palette_at v = Inr (palette ! nat v)"
  using palette_ok by (simp add: palette_at_def)

lemma render_row_props:
  assumes "valid_image img" "list_all (\<lambda>v. 0 \<le> v \<and> v \<le> 15) vs"
  shows "\<exists>img'. render_row img x y0 vs = Inr img' \<and> valid_image img' \<and> Rect img' = Rect img \<and>
     (\<forall>x' y'. In x' y' (Rect img) \<longrightarrow> ColorIndexAt img' x' y' =
        (if x' = x \<and> y0 \<le> y' \<and> y' < y0 + int (length vs)
         then nat (vs ! nat (y' - y0)) else ColorIndexAt img x' y'))"
  using assms
proof (induction vs arbitrary: img y0)
  case Nil
  then show ?case by simp
next
  case (Cons v vs)
  from Cons.prems(2) have v: "0 \<le> v" "v \<le> 15" and vs: "list_all (\<lambda>v. 0 \<le> v \<and> v \<le> 15) vs"
    by simp_all
  define img1 where "img1 = Set img x y0 (palette ! nat v)"
  have idx: "Index palette (palette ! nat v) mod 256 = nat v"
    using v by (simp add: Index_palette)
  have 1: "valid_image img1" "Rect img1 = Rect img"
    using Set_props(1,2)[OF Cons.prems(1)] by (simp_all add: img1_def)
  have c1: "ColorIndexAt img1 x' y' = (if x' = x \<and> y' = y0 then nat v else ColorIndexAt img x' y')"
    if "In x' y' (Rect img)" for x' y'
    using Set_props(3)[OF Cons.prems(1) that] idx by (simp add: img1_def)
  from Cons.IH[OF 1(1) vs, of "y0 + 1"] obtain img' where
    r: "render_row img1 x (y0 + 1) vs = Inr img'" and ok: "valid_image img'" "Rect img' = Rect img1"
    and c2: "\<And>x' y'. In x' y' (Rect img1) \<Longrightarrow> ColorIndexAt img' x' y' =
        (if x' = x \<and> y0 + 1 \<le> y' \<and> y' < y0 + 1 + int (length vs)
         then nat (vs ! nat (y' - (y0 + 1))) else ColorIndexAt img1 x' y')"
    by blast
  have run: "render_row img x y0 (v # vs) = Inr img'"
    using r v by (simp add: palette_at_ok img1_def)
  have "ColorIndexAt img' x' y' =
        (if x' = x \<and> y0 \<le> y' \<and> y' < y0 + int (length (v # vs))
         then nat ((v # vs) ! nat (y' - y0)) else ColorIndexAt img x' y')"
    if i: "In x' y' (Rect img)" for x' y'
  proof (cases "x' = x \<and> y0 + 1 \<le> y' \<and> y' < y0 + 1 + int (length vs)")
    case True
    then have "nat (y' - y0) = Suc (nat (y' - (y0 + 1)))" by linarith
    with True c2[of x' y'] i 1(2) show ?thesis by simp
  next
    case False
    with c2[of x' y'] c1[OF i] i 1(2) show ?thesis by auto
  qed
  with run ok 1 show ?case by simp
qed

lemma render_rows_props:
  assumes "valid_image img" "cells_within 0 15 rows"
  shows "\<exists>img'. render_rows img x0 rows = Inr img' \<and> valid_image img' \<and> Rect img' = Rect img \<and>
     (\<forall>x' y'. In x' y' (Rect img) \<longrightarrow> ColorIndexAt img' x' y' =
        (if x0 \<le> x' \<and> x' < x0 + int (length rows) \<and>
            0 \<le> y' \<and> y' < int (length (rows ! nat (x' - x0)))
         then nat (rows ! nat (x' - x0) ! nat y') else ColorIndexAt img x' y'))"
  using assms
proof (induction rows arbitrary: img x0)
  case Nil
  then show ?case by simp
next
  case (Cons row rows)
  from Cons.prems(2) have row: "list_all (\<lambda>v. 0 \<le> v \<and> v \<le> 15) row"
    and rows: "cells_within 0 15 rows"
    by (simp_all add: cells_within_def)
  from render_row_props[OF Cons.prems(1) row, of x0 0] obtain img1 where
    r1: "render_row img x0 0 row = Inr img1" and 1: "valid_image img1" "Rect img1 = Rect img"
    and c1: "\<And>x' y'. In x' y' (Rect img) \<Longrightarrow> ColorIndexAt img1 x' y' =
        (if x' = x0 \<and> 0 \<le> y' \<and> y' < int (length row)
         then nat (row ! nat y') else ColorIndexAt img x' y')"
    by auto
  from Cons.IH[OF 1(1) rows, of "x0 + 1"] obtain img' where
    r: "render_rows img1 (x0 + 1) rows = Inr img'" and ok: "valid_image img'" "Rect img' = Rect img1"
    and c2: "\<And>x' y'. In x' y' (Rect img1) \<Longrightarrow> ColorIndexAt img' x' y' =
        (if x0 + 1 \<le> x' \<and> x' < x0 + 1 + int (length rows) \<and>
            0 \<le> y' \<and> y' < int (length (rows ! nat (x' - (x0 + 1))))
         then nat (rows ! nat (x' - (x0 + 1)) ! nat y') else ColorIndexAt img1 x' y')"
    by blast
  have run: "render_rows img x0 (row # rows) = Inr img'"
    using r r1 by simp
  have "ColorIndexAt img' x' y' =
        (if x0 \<le> x' \<and> x' < x0 + int (length (row # rows)) \<and>
            0 \<le> y' \<and> y' < int (length ((row # rows) ! nat (x' - x0)))
         then nat ((row # rows) ! nat (x' - x0) ! nat y') else ColorIndexAt img x' y')"
    if i: "In x' y' (Rect img)" for x' y'
  proof (cases "x0 + 1 \<le> x'")
    case True
    then have "nat (x' - x0) = Suc (nat (x' - (x0 + 1)))" by linarith
    with True c2[of x' y'] c1[OF i] i 1(2) show ?thesis by auto
  next
    case False
    with c2[of x' y'] c1[OF i] i 1(2) show ?thesis by auto
  qed
  with run ok 1 show ?case by simp
qed

lemma new_image_eq:
  assumes "1 \<le> s" "s < 2 ^ 30"
  shows "new_image s =
     (if (2 * s + 1) * (2 * s - 1) > maxAlloc then Inl MakeLenOutOfRange
      else Inr \<lparr>Pix = replicate (nat ((2 * s + 1) * (2 * s - 1))) 0, Stride = 2 * s + 1,
          Rect = \<lparr>MinX = 0, MinY = 0, MaxX = 2 * s + 1, MaxY = 2 * s - 1\<rparr>,
          Palette = palette\<rparr>)"
proof -
  have m: "mul64 2 s = 2 * s" using assms by (simp add: mul64_def wrap64_id)
  have a: "add64 (2 * s) 1 = 2 * s + 1" using assms by (simp add: add64_def wrap64_id)
  have b: "sub64 (2 * s) 1 = 2 * s - 1" using assms by (simp add: sub64_def wrap64_id)
  have dx: "sub64 (2 * s + 1) 0 = 2 * s + 1" using assms by (simp add: sub64_def wrap64_id)
  have dy: "sub64 (2 * s - 1) 0 = 2 * s - 1" using assms by (simp add: sub64_def wrap64_id)
  have "s * s < 2 ^ 30 * 2 ^ 30" using assms by (intro mult_strict_mono) simp_all
  then have "(2 * s + 1) * (2 * s - 1) < 2 ^ 63" by (simp add: algebra_simps)
  then show ?thesis using assms
    by (simp add: new_image_def m a b image_Rect_def NewPaletted_def Dx_def Dy_def dx dy Let_def)
qed

lemma frame_pixels_aux:
  assumes "1 \<le> s" "s < 2 ^ 30" "new_image s = Inr img0" "length lisa = nat (2 * s)"
    "is_square lisa" "cells_within 0 15 lisa"
  shows "\<exists>img. render_lisa img0 lisa = Inr img \<and>
     Rect img = \<lparr>MinX = 0, MinY = 0, MaxX = 2 * s + 1, MaxY = 2 * s - 1\<rparr> \<and>
     (\<forall>x y. In x y (Rect img) \<longrightarrow>
        At img x y = Some (palette ! (if x < 2 * s then nat (lisa ! nat x ! nat y) else 0)))"
proof -
  have i0: "img0 = \<lparr>Pix = replicate (nat ((2 * s + 1) * (2 * s - 1))) 0, Stride = 2 * s + 1,
          Rect = \<lparr>MinX = 0, MinY = 0, MaxX = 2 * s + 1, MaxY = 2 * s - 1\<rparr>,
          Palette = palette\<rparr>"
    using assms(3) new_image_eq[OF assms(1,2)] by (simp split: if_splits)
  have v0: "valid_image img0" using assms(1) by (simp add: valid_image_def i0)
  have r0: "Rect img0 = \<lparr>MinX = 0, MinY = 0, MaxX = 2 * s + 1, MaxY = 2 * s - 1\<rparr>"
    by (simp add: i0)
  have z: "ColorIndexAt img0 x y = 0" if "In x y (Rect img0)" for x y
    using PixOffset_range[OF v0 that] that by (simp add: ColorIndexAt_def) (simp add: i0)
  from render_rows_props[OF v0 assms(6), of 0] obtain img where
    r: "render_lisa img0 lisa = Inr img" and v: "valid_image img" and rc: "Rect img = Rect img0"
    and c: "\<And>x y. In x y (Rect img0) \<Longrightarrow> ColorIndexAt img x y =
        (if 0 \<le> x \<and> x < 0 + int (length lisa) \<and> 0 \<le> y \<and> y < int (length (lisa ! nat (x - 0)))
         then nat (lisa ! nat (x - 0) ! nat y) else ColorIndexAt img0 x y)"
    unfolding render_lisa_def by blast
  have "At img x y = Some (palette ! (if x < 2 * s then nat (lisa ! nat x ! nat y) else 0))"
    if i: "In x y (Rect img)" for x y
  proof -
    from i have i0: "In x y (Rect img0)" by (simp add: rc)
    then have b: "0 \<le> x" "x \<le> 2 * s" "0 \<le> y" "y < 2 * s - 1" by (simp_all add: In_def r0)
    have at: "At img x y = Some (palette ! ColorIndexAt img x y)"
      using i v palette_ok by (simp add: At_def ColorIndexAt_def valid_image_def)
    show ?thesis
    proof (cases "x < 2 * s")
      case True
      then have "nat x < length lisa" using b assms(4) by simp
      then have "length (lisa ! nat x) = nat (2 * s)"
        using assms(4,5) by (simp add: is_square_def list_all_length)
      with True b assms(4) c[OF i0] at show ?thesis by simp
    next
      case False
      with b assms(4) c[OF i0] z[OF i0] at show ?thesis by simp
    qed
  qed
  with r rc r0 show ?thesis by simp
qed

lemma zero_grid_ok:
  "length (replicate 4 (replicate 4 (0::int))) = nat (2 * 2) \<and>
   is_square (replicate 4 (replicate 4 0)) \<and>
   cells_within 0 15 (replicate 4 (replicate 4 0))"
  by (simp add: is_square_def cells_within_def list_all_length)

section \<open>The sweep and the frame loop\<close>

declare lissajous_loop.simps [simp del]

lemma advance_keeps [simp]:
  "nframes (advance g) = nframes g" "delay (advance g) = delay g" "size' (advance g) = size' g"
  "res (advance g) = res g" "cycles (advance g) = cycles g" "outFile (advance g) = outFile g"
  "limit (advance g) = limit g"
  by (simp_all add: advance_def limit_def)

lemma sweep_stops:
  "\<not> t < limit g \<Longrightarrow> sweep g t lisa = Some (Inr lisa)"
  by (subst sweep.simps) simp

lemma samples_stop: "\<not> t < limit g \<Longrightarrow> sweep_samples g t = Some []"
  by (subst sweep_samples.simps) simp

lemma samples_step:
  "t < limit g \<Longrightarrow> sweep_samples g (round64 (t + res g)) = Some ts \<Longrightarrow>
   sweep_samples g t = Some (t # ts)"
  by (subst sweep_samples.simps) simp

lemma samples_cases:
  assumes "sweep_samples g t = Some ts"
  shows "(\<not> t < limit g \<and> ts = []) \<or>
         (t < limit g \<and>
          (\<exists>ts'. ts = t # ts' \<and> sweep_samples g (round64 (t + res g)) = Some ts'))"
proof (cases "t < limit g")
  case False
  then have "sweep_samples g t = Some []" by (rule samples_stop)
  with assms False show ?thesis by simp
next
  case True
  then have "sweep_samples g t =
      Option.bind (sweep_samples g (round64 (t + res g))) (\<lambda>ts. Some (t # ts))"
    by (subst sweep_samples.simps) simp
  with assms True show ?thesis by (auto simp: bind_eq_Some_conv)
qed


lemma sweep_of_samples:
  "sweep_samples g t = Some ts \<Longrightarrow>
   sweep g t lisa = Some (paint_calls (map (sample g) ts) lisa 15)"
proof (induction ts arbitrary: t lisa)
  case Nil
  from samples_cases[OF Nil] have "\<not> t < limit g" by auto
  then show ?case by (simp add: sweep_stops)
next
  case (Cons a ts)
  from samples_cases[OF Cons.prems] have t: "t < limit g" "a = t"
    and rest: "sweep_samples g (round64 (t + res g)) = Some ts"
    by auto
  have u: "sweep g t lisa =
      (case paint (math_Sin (round64 (round64 (t * xfreq g) + xphase g)))
                  (math_Sin (round64 (round64 (t * yfreq g) + yphase g)))
                  (sub64 (size' g) 2) lisa 15 of
         Inl e \<Rightarrow> Some (Inl e)
       | Inr lisa' \<Rightarrow> sweep g (round64 (t + res g)) lisa')"
    using t(1) by (subst sweep.simps) simp
  have c: "paint_calls (map (sample g) (a # ts)) lisa 15 =
      (case paint (math_Sin (round64 (round64 (t * xfreq g) + xphase g)))
                  (math_Sin (round64 (round64 (t * yfreq g) + yphase g)))
                  (sub64 (size' g) 2) lisa 15 of
         Inl e \<Rightarrow> Inl e
       | Inr lisa' \<Rightarrow> paint_calls (map (sample g) ts) lisa' 15)"
    by (simp add: t(2) sample_def)
  show ?case unfolding u c using Cons.IH[OF rest] by (simp split: sum.splits)
qed

lemma tiny_res:
  assumes "2 powi (- 1022) \<le> r"
  shows "(2::real) powi (- 1075) \<le> r / 4" and "0 < r"
proof -
  have "(2::real) powi (- 1075) \<le> 2 powi (- 1024)"
    by (intro power_int_increasing) simp_all
  moreover have "(2::real) powi (- 1024) * 4 = 2 powi (- 1022)"
    using power_int_add[of "2::real" "- 1024" 2] by simp
  ultimately show "(2::real) powi (- 1075) \<le> r / 4" using assms by linarith
  have "(0::real) < 2 powi (- 1022)" by simp
  with assms show "0 < r" by linarith
qed

lemma samples_terminate:
  assumes R: "2 powi (- 1022) \<le> res g" and L: "limit g \<le> 2 ^ 50 * res g" and t0: "0 \<le> t"
  shows "\<exists>ts. sweep_samples g t = Some ts \<and>
           length ts \<le> nat \<lceil>2 * (limit g - t) / res g\<rceil>"
  using t0
proof (induction "nat \<lceil>2 * (limit g - t) / res g\<rceil>" arbitrary: t rule: less_induct)
  case less
  have rpos: "0 < res g" using tiny_res(2)[OF R] .
  show ?case
  proof (cases "t < limit g")
    case False
    then show ?thesis by (simp add: samples_stop)
  next
    case True
    define t' where "t' = round64 (t + res g)"
    have b: "\<bar>t + res g\<bar> \<le> (2 ^ 50 + 1) * res g"
      using True L less.prems rpos by (simp add: algebra_simps)
    have "\<bar>t + res g\<bar> / 2 ^ 53 \<le> (2 ^ 50 + 1) * res g / 2 ^ 53"
      using b by (intro divide_right_mono) simp_all
    also have "\<dots> \<le> res g / 4" using rpos by simp
    finally have e1: "\<bar>t + res g\<bar> / 2 ^ 53 \<le> res g / 4" .
    have "\<bar>t' - (t + res g)\<bar> \<le> res g / 2"
      using round64_rel_err[of "t + res g"] e1 tiny_res(1)[OF R] by (simp add: t'_def)
    then have prog: "t + res g / 2 \<le> t'" by linarith
    then have t'0: "0 \<le> t'" using less.prems rpos by linarith
    have "2 * (limit g - t') \<le> 2 * (limit g - t) - res g"
      using prog by (simp add: algebra_simps)
    then have "2 * (limit g - t') / res g \<le> (2 * (limit g - t) - res g) / res g"
      using rpos by (intro divide_right_mono) simp_all
    also have "\<dots> = 2 * (limit g - t) / res g - 1"
      using rpos by (simp add: diff_divide_distrib)
    finally have "2 * (limit g - t') / res g \<le> 2 * (limit g - t) / res g - 1" .
    then have "\<lceil>2 * (limit g - t') / res g\<rceil> \<le> \<lceil>2 * (limit g - t) / res g - 1\<rceil>"
      by (rule ceiling_mono)
    then have c: "\<lceil>2 * (limit g - t') / res g\<rceil> \<le> \<lceil>2 * (limit g - t) / res g\<rceil> - 1"
      by simp
    have "0 < 2 * (limit g - t) / res g" using True rpos by simp
    then have p: "0 < \<lceil>2 * (limit g - t) / res g\<rceil>" by simp
    from c p have dec: "nat \<lceil>2 * (limit g - t') / res g\<rceil> < nat \<lceil>2 * (limit g - t) / res g\<rceil>"
      by simp
    from less.hyps[OF dec t'0] obtain ts where
      ts: "sweep_samples g t' = Some ts" "length ts \<le> nat \<lceil>2 * (limit g - t') / res g\<rceil>"
      by blast
    have "sweep_samples g t = Some (t # ts)"
      using True ts(1) unfolding t'_def by (rule samples_step)
    moreover have "Suc (length ts) \<le> nat \<lceil>2 * (limit g - t) / res g\<rceil>"
      using ts(2) dec by linarith
    then have "length (t # ts) \<le> nat \<lceil>2 * (limit g - t) / res g\<rceil>"
      by simp
    ultimately show ?thesis by blast
  qed
qed


lemma new_image_valid:
  assumes "0 \<le> s" "s < 2 ^ 23"
  shows "\<exists>img. new_image s = Inr img \<and> valid_image img"
proof (cases "s = 0")
  case True
  then show ?thesis
    by (simp add: new_image_def mul64_def add64_def sub64_def wrap64_def image_Rect_def
        NewPaletted_def Dx_def Dy_def maxAlloc_def valid_image_def)
next
  case False
  with assms have s: "1 \<le> s" "s < 2 ^ 30" by simp_all
  have "s * s < 2 ^ 23 * 2 ^ 23" using assms by (intro mult_strict_mono) simp_all
  then have "(2 * s + 1) * (2 * s - 1) \<le> maxAlloc" by (simp add: algebra_simps maxAlloc_def)
  with new_image_eq[OF s] s(1) show ?thesis
    by (simp add: valid_image_def)
qed

lemma make_lisa_ok:
  assumes "0 \<le> s" "s < 2 ^ 23"
  shows "\<exists>lisa. make_lisa (mul64 2 s) = Inr lisa \<and> is_square lisa \<and> cells_within 0 15 lisa"
proof -
  have "mul64 2 s = 2 * s" using assms by (simp add: mul64_def wrap64_id)
  then show ?thesis using assms
    by (simp add: make_lisa_def maxAlloc_def is_square_def cells_within_def list_all_length)
qed

lemma sweep_returns:
  assumes "2 powi (- 1022) \<le> res g" "limit g \<le> 2 ^ 50 * res g"
    "is_square lisa" "cells_within 0 15 lisa"
  shows "\<exists>lisa'. sweep g 0 lisa = Some (Inr lisa') \<and> is_square lisa' \<and>
           length lisa' = length lisa \<and> cells_within 0 15 lisa'"
proof -
  obtain ts where ts: "sweep_samples g 0 = Some ts"
    using samples_terminate[OF assms(1,2), of 0] by auto
  obtain lisa' where c: "paint_calls (map (sample g) ts) lisa 15 = Inr lisa'"
    and sq: "is_square lisa'" "length lisa' = length lisa"
    using paint_calls_square[OF assms(3)] by blast
  have "cells_within 0 15 lisa'" using paint_calls_within[OF assms(4) _ c] by simp
  with sweep_of_samples[OF ts, of lisa] c sq show ?thesis by simp
qed

lemma frame_returns:
  assumes "0 \<le> size' g" "size' g < 2 ^ 23"
    "2 powi (- 1022) \<le> res g" "limit g \<le> 2 ^ 50 * res g"
  shows "\<exists>img. frame g = Some (Inr img)"
proof -
  obtain img0 where i: "new_image (size' g) = Inr img0" and v: "valid_image img0"
    using new_image_valid[OF assms(1,2)] by blast
  obtain lisa where l: "make_lisa (mul64 2 (size' g)) = Inr lisa"
    and sq: "is_square lisa" and w: "cells_within 0 15 lisa"
    using make_lisa_ok[OF assms(1,2)] by blast
  from sweep_returns[OF assms(3,4) sq w] obtain lisa' where
    s: "sweep g 0 lisa = Some (Inr lisa')" and w': "cells_within 0 15 lisa'"
    by blast
  from render_rows_props[OF v w', of 0] obtain img where "render_lisa img0 lisa' = Inr img"
    unfolding render_lisa_def by blast
  with i l s show ?thesis by (simp add: frame_def)
qed

lemma lissajous_loop_counts:
  "lissajous_loop i g anim printed = Some (Inr (g', anim', printed')) \<Longrightarrow>
   length (Image anim') = length (Image anim) + nat (nframes g - i) \<and>
   Delay anim' = Delay anim @ replicate (nat (nframes g - i)) (delay g) \<and>
   LoopCount anim' = LoopCount anim \<and> nframes g' = nframes g"
proof (induction i g anim printed rule: lissajous_loop.induct)
  case (1 i g anim printed)
  show ?case
  proof (cases "i < nframes g")
    case False
    with "1.prems" show ?thesis by (simp add: lissajous_loop.simps)
  next
    case True
    with "1.prems" obtain img where f: "frame g = Some (Inr img)"
      and rest: "lissajous_loop (i + 1) (advance g)
          (anim\<lparr>Delay := Delay anim @ [delay g], Image := Image anim @ [img]\<rparr>)
          (printed @ [Rendered i (nframes g)]) = Some (Inr (g', anim', printed'))"
      by (subst (asm) lissajous_loop.simps) (auto split: option.splits sum.splits)
    have n: "nat (nframes g - i) = Suc (nat (nframes g - (i + 1)))" using True by linarith
    from "1.IH"[OF True f refl rest] show ?thesis
      by (simp add: n replicate_append_same)
  qed
qed

lemma lissajous_loop_frames:
  "lissajous_loop i g anim printed = Some (Inr (g', anim', printed')) \<Longrightarrow>
   \<exists>imgs. Image anim' = Image anim @ imgs \<and>
     (\<forall>k<length imgs. frame ((advance ^^ k) g) = Some (Inr (imgs ! k)))"
proof (induction i g anim printed rule: lissajous_loop.induct)
  case (1 i g anim printed)
  show ?case
  proof (cases "i < nframes g")
    case False
    with "1.prems" show ?thesis by (simp add: lissajous_loop.simps)
  next
    case True
    with "1.prems" obtain img where f: "frame g = Some (Inr img)"
      and rest: "lissajous_loop (i + 1) (advance g)
          (anim\<lparr>Delay := Delay anim @ [delay g], Image := Image anim @ [img]\<rparr>)
          (printed @ [Rendered i (nframes g)]) = Some (Inr (g', anim', printed'))"
      by (subst (asm) lissajous_loop.simps) (auto split: option.splits sum.splits)
    from "1.IH"[OF True f refl rest] obtain imgs where
      im: "Image anim' = (Image anim @ [img]) @ imgs"
      and fr: "\<And>k. k < length imgs \<Longrightarrow>
          frame ((advance ^^ k) (advance g)) = Some (Inr (imgs ! k))"
      by auto
    have "frame ((advance ^^ k) g) = Some (Inr ((img # imgs) ! k))" if "k < length (img # imgs)" for k
    proof (cases k)
      case 0
      with f show ?thesis by simp
    next
      case (Suc k')
      with that fr[of k'] show ?thesis by (simp add: funpow_swap1)
    qed
    with im show ?thesis by (intro exI[of _ "img # imgs"]) simp
  qed
qed

lemma lissajous_loop_returns:
  "0 \<le> size' g \<Longrightarrow> size' g < 2 ^ 23 \<Longrightarrow>
   2 powi (- 1022) \<le> res g \<Longrightarrow> limit g \<le> 2 ^ 50 * res g \<Longrightarrow>
   \<exists>r. lissajous_loop i g anim printed = Some (Inr r)"
proof (induction i g anim printed rule: lissajous_loop.induct)
  case (1 i g anim printed)
  show ?case
  proof (cases "i < nframes g")
    case False
    then show ?thesis by (simp add: lissajous_loop.simps)
  next
    case True
    obtain img where f: "frame g = Some (Inr img)"
      using frame_returns[OF "1.prems"] by blast
    from "1.IH"[OF True f refl] "1.prems" obtain r where
      "lissajous_loop (i + 1) (advance g)
          (anim\<lparr>Delay := Delay anim @ [delay g], Image := Image anim @ [img]\<rparr>)
          (printed @ [Rendered i (nframes g)]) = Some (Inr r)"
      by auto
    with True f show ?thesis by (subst lissajous_loop.simps) (cases r, simp)
  qed
qed

lemma sweep_invariant_imp:
  assumes "sweep g t lisa = Some r"
  shows "is_square lisa \<longrightarrow> cells_within 0 15 lisa \<longrightarrow>
   (\<exists>lisa'. r = Inr lisa' \<and> is_square lisa' \<and> length lisa' = length lisa \<and>
     cells_within 0 15 lisa')"
proof (rule sweep.raw_induct[where P = "\<lambda>g t lisa r. is_square lisa \<longrightarrow>
    cells_within 0 15 lisa \<longrightarrow>
   (\<exists>lisa'. r = Inr lisa' \<and> is_square lisa' \<and> length lisa' = length lisa \<and>
     cells_within 0 15 lisa')", OF _ assms])
  fix sweep g t lisa r
  assume IH: "\<And>g' t' l' y. sweep g' t' l' = Some y \<Longrightarrow>
      is_square l' \<longrightarrow> cells_within 0 15 l' \<longrightarrow>
      (\<exists>lisa'. y = Inr lisa' \<and> is_square lisa' \<and> length lisa' = length l' \<and>
        cells_within 0 15 lisa')"
    and eq: "(if t < limit g
      then case paint (math_Sin (round64 (round64 (t * xfreq g) + xphase g)))
                 (math_Sin (round64 (round64 (t * yfreq g) + yphase g)))
                 (sub64 (size' g) 2) lisa 15 of
           Inl e \<Rightarrow> Some (Inl e) | Inr lisa' \<Rightarrow> sweep g (round64 (t + res g)) lisa'
      else Some (Inr lisa)) = Some r"
  show "is_square lisa \<longrightarrow> cells_within 0 15 lisa \<longrightarrow>
   (\<exists>lisa'. r = Inr lisa' \<and> is_square lisa' \<and> length lisa' = length lisa \<and>
     cells_within 0 15 lisa')"
  proof (intro impI)
    assume sq0: "is_square lisa" and w0: "cells_within 0 15 lisa"
    show "\<exists>lisa'. r = Inr lisa' \<and> is_square lisa' \<and> length lisa' = length lisa \<and>
      cells_within 0 15 lisa'"
    proof (cases "t < limit g")
      case False
      with eq have "r = Inr lisa" by auto
      with sq0 w0 show ?thesis by simp
    next
      case True
      obtain lisa1 where p: "paint (math_Sin (round64 (round64 (t * xfreq g) + xphase g)))
                 (math_Sin (round64 (round64 (t * yfreq g) + yphase g)))
                 (sub64 (size' g) 2) lisa 15 = Inr lisa1"
        and sq: "is_square lisa1" and len: "length lisa1 = length lisa"
        using paint_square[OF sq0] by blast
      have w: "cells_within 0 15 lisa1"
        using paint_within[OF w0 _ p] by simp
      from eq True p have "sweep g (round64 (t + res g)) lisa1 = Some r" by simp
      from IH[OF this] sq w len show ?thesis by simp
    qed
  qed
qed

lemma sweep_invariant:
  "sweep g t lisa = Some r \<Longrightarrow> is_square lisa \<Longrightarrow> cells_within 0 15 lisa \<Longrightarrow>
   \<exists>lisa'. r = Inr lisa' \<and> is_square lisa' \<and> length lisa' = length lisa \<and>
     cells_within 0 15 lisa'"
  using sweep_invariant_imp by blast

lemma frame_pixels_sweep:
  assumes "1 \<le> size' g" "size' g < 2 ^ 30" "frame g = Some (Inr img)"
  shows "Rect img = \<lparr>MinX = 0, MinY = 0, MaxX = 2 * size' g + 1, MaxY = 2 * size' g - 1\<rparr> \<and>
    (\<exists>lisa. sweep g 0 (replicate (nat (2 * size' g)) (replicate (nat (2 * size' g)) 0)) =
         Some (Inr lisa) \<and>
       length lisa = nat (2 * size' g) \<and> is_square lisa \<and>
       (\<forall>x y. In x y (Rect img) \<longrightarrow>
          At img x y =
            Some (palette ! (if x < 2 * size' g then nat (lisa ! nat x ! nat y) else 0))))"
proof -
  let ?z = "replicate (nat (2 * size' g)) (replicate (nat (2 * size' g)) (0::int))"
  have m: "mul64 2 (size' g) = 2 * size' g" using assms(1,2) by (simp add: mul64_def wrap64_id)
  have z: "is_square ?z" "cells_within 0 15 ?z"
    by (simp_all add: is_square_def cells_within_def list_all_length)
  from assms(3) obtain img0 lisa0 r where n: "new_image (size' g) = Inr img0"
    and l0: "make_lisa (mul64 2 (size' g)) = Inr lisa0"
    and s0: "sweep g 0 lisa0 = Some r"
    by (auto simp: frame_def split: option.splits sum.splits)
  from l0 have "lisa0 = ?z" by (simp add: m make_lisa_def split: if_splits)
  with l0 s0 have l: "make_lisa (mul64 2 (size' g)) = Inr ?z" and s: "sweep g 0 ?z = Some r"
    by simp_all
  from sweep_invariant[OF s z] obtain lisa where r: "r = Inr lisa"
    and sq: "is_square lisa" and len: "length lisa = nat (2 * size' g)"
    and w: "cells_within 0 15 lisa"
    by auto
  from assms(3) n l s r have rl: "render_lisa img0 lisa = Inr img" by (simp add: frame_def)
  from frame_pixels_aux[OF assms(1,2) n len sq w] rl
  have "Rect img = \<lparr>MinX = 0, MinY = 0, MaxX = 2 * size' g + 1, MaxY = 2 * size' g - 1\<rparr>"
    and "\<forall>x y. In x y (Rect img) \<longrightarrow>
          At img x y =
            Some (palette ! (if x < 2 * size' g then nat (lisa ! nat x ! nat y) else 0))"
    by auto
  with s r len sq show ?thesis by blast
qed

lemma lissajous_counts:
  assumes "lissajous g EncodeAll out = Some (Inr (g', anim, printed, err))"
  shows "length (Image anim) = nat (nframes g) \<and> length (Delay anim) = nat (nframes g) \<and>
         Delay anim = replicate (nat (nframes g)) (delay g) \<and>
         LoopCount anim = nframes g \<and> err = EncodeAll out anim"
proof -
  from assms obtain g1 pr where
    l: "lissajous_loop 0 g \<lparr>Image = [], Delay = [], LoopCount = nframes g\<rparr> [] =
          Some (Inr (g1, anim, pr))"
    and e: "err = EncodeAll out anim"
    by (auto simp: lissajous_def split: option.splits sum.splits)
  from lissajous_loop_counts[OF l] e show ?thesis by simp
qed

lemma lissajous_frames:
  assumes "lissajous g EncodeAll out = Some (Inr (g', anim, printed, err))"
    and "i < length (Image anim)"
  shows "frame ((advance ^^ i) g) = Some (Inr (Image anim ! i))"
proof -
  from assms(1) obtain g1 pr where
    l: "lissajous_loop 0 g \<lparr>Image = [], Delay = [], LoopCount = nframes g\<rparr> [] =
          Some (Inr (g1, anim, pr))"
    by (auto simp: lissajous_def split: option.splits sum.splits)
  from lissajous_loop_frames[OF l] assms(2) show ?thesis by auto
qed


lemma lissajous_returns:
  assumes "0 \<le> size' g" "size' g < 2 ^ 23"
    "2 powi (- 1022) \<le> res g" "limit g \<le> 2 ^ 50 * res g"
  shows "\<exists>g' anim printed. lissajous g EncodeAll out =
           Some (Inr (g', anim, printed, EncodeAll out anim))"
proof -
  obtain r where "lissajous_loop 0 g \<lparr>Image = [], Delay = [], LoopCount = nframes g\<rparr> [] =
      Some (Inr r)"
    using lissajous_loop_returns[OF assms] by blast
  then show ?thesis by (cases r) (simp add: lissajous_def)
qed

lemma limit_eval:
  "round64 (cycles g * 2) = c \<Longrightarrow> round64 (c * (884279719003555 / 2 ^ 48)) = l \<Longrightarrow>
   limit g = l"
  by (simp add: limit_def round64_math_Pi)

lemma default_limit: "limit default_flags = 884279719003555 / 2 ^ 46"
proof (rule limit_eval)
  show "round64 (cycles default_flags * 2) = 4"
    using round64_of_int[of 4] by (simp add: default_flags_def)
  show "round64 (4 * (884279719003555 / 2 ^ 48)) = 884279719003555 / 2 ^ 46"
    using round64_dyadic[of 884279719003555 "- 46"] by (simp add: power_int_minus)
qed

lemma default_flags_ok:
  "0 \<le> size' default_flags \<and> size' default_flags < 2 ^ 23 \<and>
   2 powi (- 1022) \<le> res default_flags \<and> res default_flags \<le> 2 ^ 900 \<and>
   limit default_flags \<le> 2 ^ 50 * res default_flags"
proof -
  have r: "res default_flags = 7378697629483821 / 2 ^ 66"
    using round64_res by (simp add: default_flags_def)
  have "(2::real) powi (- 1022) \<le> 2 powi (- 66)"
    by (intro power_int_increasing) simp_all
  also have "\<dots> \<le> 7378697629483821 / 2 ^ 66" by (simp add: power_int_minus)
  finally have 1: "2 powi (- 1022) \<le> res default_flags" by (simp only: r)
  have "(7378697629483821::real) / 2 ^ 66 \<le> 1" by simp
  also have "\<dots> \<le> 2 ^ 900" by (rule one_le_power) simp
  finally have 2: "res default_flags \<le> 2 ^ 900" by (simp only: r)
  have 3: "limit default_flags \<le> 2 ^ 50 * res default_flags"
    by (simp add: default_limit r)
  have 4: "0 \<le> size' default_flags \<and> size' default_flags < 2 ^ 23"
    by (simp add: default_flags_def)
  from 1 2 3 4 show ?thesis by simp
qed

lemma advance_iter:
  "xfreq ((advance ^^ i) g) = drift (xfreq g) (xfreqInc g) i \<and>
   yfreq ((advance ^^ i) g) = drift (yfreq g) (yfreqInc g) i \<and>
   xphase ((advance ^^ i) g) = drift (xphase g) (xphaseInc g) i \<and>
   yphase ((advance ^^ i) g) = drift (yphase g) (yphaseInc g) i \<and>
   xfreqInc ((advance ^^ i) g) = xfreqInc g \<and> yfreqInc ((advance ^^ i) g) = yfreqInc g \<and>
   xphaseInc ((advance ^^ i) g) = xphaseInc g \<and> yphaseInc ((advance ^^ i) g) = yphaseInc g"
  by (induction i) (simp_all add: advance_def drift_def)

lemma drift_exact:
  assumes "\<forall>k\<le>i. is_float64 (a + real k * d)"
  shows "drift a d i = a + real i * d"
  using assms
proof (induction i)
  case 0
  then show ?case by (simp add: drift_def)
next
  case (Suc i)
  then have ih: "drift a d i = a + real i * d" by simp
  have e: "a + real i * d + d = a + real (Suc i) * d" by (simp add: algebra_simps)
  have "is_float64 (a + real (Suc i) * d)" using Suc.prems by blast
  then have r: "round64 (a + real (Suc i) * d) = a + real (Suc i) * d"
    by (simp add: is_float64_def)
  have "drift a d (Suc i) = round64 (drift a d i + d)" by (simp add: drift_def)
  then show ?case by (simp only: ih e r)
qed

lemma drift_finite:
  assumes "\<forall>k\<le>i. is_float64 (a + real k * d)"
  shows "\<forall>k\<le>i. \<bar>drift a d k\<bar> < 2 ^ 1024"
proof (intro allI impI)
  fix k
  assume k: "k \<le> i"
  then have "\<forall>j\<le>k. is_float64 (a + real j * d)" using assms by simp
  then have "drift a d k = a + real k * d" by (rule drift_exact)
  moreover have "is_float64 (a + real k * d)" using assms k by blast
  ultimately show "\<bar>drift a d k\<bar> < 2 ^ 1024" by (simp add: is_float64_def)
qed

lemma stall_limit:
  "limit (default_flags\<lparr>cycles := 2 ^ 53, res := 1\<rparr>) = 884279719003555 * 2 ^ 6"
proof (rule limit_eval)
  show "round64 (cycles (default_flags\<lparr>cycles := 2 ^ 53, res := 1\<rparr>) * 2) = 2 ^ 54"
    using round64_dyadic[of 1 54] by simp
  show "round64 (2 ^ 54 * (884279719003555 / 2 ^ 48)) = 884279719003555 * 2 ^ 6"
    using round64_dyadic[of 884279719003555 6] by simp
qed

lemma stall_step:
  assumes "\<exists>k::nat. t = real k \<and> k \<le> 2 ^ 53"
  shows "\<exists>k::nat. round64 (t + 1) = real k \<and> k \<le> 2 ^ 53"
proof -
  from assms obtain k :: nat where k: "t = real k" "k \<le> 2 ^ 53" by blast
  show ?thesis
  proof (cases "k < 2 ^ 53")
    case True
    then have "Suc k \<le> 2 ^ 53" by simp
    then have r: "round64 (real (Suc k)) = real (Suc k)" by (rule round64_of_nat)
    have e: "t + 1 = real (Suc k)" by (simp add: k(1))
    have "round64 (t + 1) = real (Suc k)" by (simp only: e r)
    then show ?thesis using \<open>Suc k \<le> 2 ^ 53\<close> by blast
  next
    case False
    with k(2) have "k = 2 ^ 53" by simp
    then have "round64 (t + 1) = real k" using round64_succ_2_53 by (simp add: k(1))
    with k(2) show ?thesis by blast
  qed
qed

lemma sweep_stalls_imp:
  assumes "sweep g t lisa = Some r"
  shows "g = default_flags\<lparr>cycles := 2 ^ 53, res := 1\<rparr> \<longrightarrow>
    (\<exists>k::nat. t = real k \<and> k \<le> 2 ^ 53) \<longrightarrow> is_square lisa \<longrightarrow> False"
proof (rule sweep.raw_induct[where P = "\<lambda>g t lisa r.
    g = default_flags\<lparr>cycles := 2 ^ 53, res := 1\<rparr> \<longrightarrow>
    (\<exists>k::nat. t = real k \<and> k \<le> 2 ^ 53) \<longrightarrow> is_square lisa \<longrightarrow> False", OF _ assms])
  fix sweep g t lisa r
  assume IH: "\<And>g' t' l' y. sweep g' t' l' = Some y \<Longrightarrow>
      g' = default_flags\<lparr>cycles := 2 ^ 53, res := 1\<rparr> \<longrightarrow>
      (\<exists>k::nat. t' = real k \<and> k \<le> 2 ^ 53) \<longrightarrow> is_square l' \<longrightarrow> False"
    and eq: "(if t < limit g
      then case paint (math_Sin (round64 (round64 (t * xfreq g) + xphase g)))
                 (math_Sin (round64 (round64 (t * yfreq g) + yphase g)))
                 (sub64 (size' g) 2) lisa 15 of
           Inl e \<Rightarrow> Some (Inl e) | Inr lisa' \<Rightarrow> sweep g (round64 (t + res g)) lisa'
      else Some (Inr lisa)) = Some r"
  show "g = default_flags\<lparr>cycles := 2 ^ 53, res := 1\<rparr> \<longrightarrow>
    (\<exists>k::nat. t = real k \<and> k \<le> 2 ^ 53) \<longrightarrow> is_square lisa \<longrightarrow> False"
  proof (intro impI)
    assume g: "g = default_flags\<lparr>cycles := 2 ^ 53, res := 1\<rparr>"
      and t: "\<exists>k::nat. t = real k \<and> k \<le> 2 ^ 53" and sq0: "is_square lisa"
    have l: "limit g = 884279719003555 * 2 ^ 6" unfolding g by (rule stall_limit)
    have r1: "res g = 1" by (simp add: g)
    from t obtain k :: nat where k: "t = real k" "k \<le> 2 ^ 53" by blast
    then have "t \<le> 2 ^ 53" by (metis of_nat_le_iff of_nat_numeral of_nat_power)
    then have lt: "t < limit g" by (simp add: l)
    obtain lisa1 where p: "paint (math_Sin (round64 (round64 (t * xfreq g) + xphase g)))
                 (math_Sin (round64 (round64 (t * yfreq g) + yphase g)))
                 (sub64 (size' g) 2) lisa 15 = Inr lisa1"
      and sq: "is_square lisa1"
      using paint_square[OF sq0] by blast
    from eq lt p have "sweep g (round64 (t + 1)) lisa1 = Some r" by (simp add: r1)
    from IH[OF this] g stall_step[OF t] sq show False by blast
  qed
qed

section \<open>Properties of a frame\<close>

text \<open>C4. Every produced frame is an indexed-colour image of dimensions
  \<open>(2 size + 1) x (2 size - 1)\<close> whose pixels have colour
  \<open>Palette[IntensityGrid[pixel]]\<close>. The grid has \<open>2 size\<close> columns and the image
  \<open>2 size + 1\<close>: for \<open>size = 2\<close> the pixel (4, 0) is in the image and the grid has no
  cell (4, 0) (reading it would be out of range); the pixel keeps the colour \<open>palette[0]\<close>
  the image was created with. Conversely the cell (0, 3) has no pixel.\<close>

theorem frame_last_column_counterexample:
  "In 4 0 (Rect (projr (new_image 2))) \<and>
   lisa_at (replicate 4 (replicate 4 0)) 4 0 = None \<and>
   At (projr (render_lisa (projr (new_image 2)) (replicate 4 (replicate 4 0)))) 4 0 =
     Some (palette ! 0) \<and>
   lisa_at (replicate 4 (replicate 4 0)) 0 3 = Some 0 \<and>
   \<not> In 0 3 (Rect (projr (new_image 2)))"
proof -
  have n: "new_image 2 = Inr \<lparr>Pix = replicate 15 0, Stride = 5,
          Rect = \<lparr>MinX = 0, MinY = 0, MaxX = 5, MaxY = 3\<rparr>, Palette = palette\<rparr>"
    using new_image_eq[of 2] by (simp add: maxAlloc_def)
  from frame_pixels_aux[of 2 _ "replicate 4 (replicate 4 0)", OF _ _ n] zero_grid_ok
  obtain img where a:
    "render_lisa \<lparr>Pix = replicate 15 0, Stride = 5,
          Rect = \<lparr>MinX = 0, MinY = 0, MaxX = 5, MaxY = 3\<rparr>, Palette = palette\<rparr>
       (replicate 4 (replicate 4 0)) = Inr img"
    "Rect img = \<lparr>MinX = 0, MinY = 0, MaxX = 2 * 2 + 1, MaxY = 2 * 2 - 1\<rparr>"
    and px: "\<And>x y. In x y (Rect img) \<Longrightarrow>
        At img x y = Some (palette ! (if x < 2 * 2 then
           nat (replicate 4 (replicate 4 0) ! nat x ! nat y) else 0))"
    by auto
  have "In 4 0 (Rect img)" by (simp add: a(2) In_def)
  from px[OF this] have "At img 4 0 = Some (palette ! 0)" by simp
  moreover have "projr (render_lisa (projr (new_image 2)) (replicate 4 (replicate 4 0))) = img"
    using a(1) n by simp
  moreover have "Rect (projr (new_image 2)) = \<lparr>MinX = 0, MinY = 0, MaxX = 5, MaxY = 3\<rparr>"
    using n by simp
  ultimately show ?thesis by (simp add: lisa_at_def In_def)
qed

text \<open>C4, as the code has it: a frame that \<open>frame\<close> returns has the rectangle
  \<open>(0, 0) - (2 size + 1, 2 size - 1)\<close>; with \<open>lisa\<close> the grid the sweep produced
  from the all-zero grid, every pixel in a column below \<open>2 size\<close> has the colour
  \<open>palette[lisa[x][y]]\<close> and every pixel of the last column \<open>x = 2 size\<close> has
  \<open>palette[0]\<close>.\<close>

theorem frame_pixels:
  assumes "1 \<le> size' g" "size' g < 2 ^ 30" "frame g = Some (Inr img)"
  shows "Rect img = \<lparr>MinX = 0, MinY = 0, MaxX = 2 * size' g + 1, MaxY = 2 * size' g - 1\<rparr> \<and>
    (\<exists>lisa. sweep g 0 (replicate (nat (2 * size' g)) (replicate (nat (2 * size' g)) 0)) =
         Some (Inr lisa) \<and>
       length lisa = nat (2 * size' g) \<and> is_square lisa \<and>
       (\<forall>x y. In x y (Rect img) \<longrightarrow>
          At img x y =
            Some (palette ! (if x < 2 * size' g then nat (lisa ! nat x ! nat y) else 0))))"
  using assms by (rule frame_pixels_sweep)

theorem frame_pixels_witness:
  "1 \<le> size' default_flags \<and> size' default_flags < 2 ^ 30 \<and>
   (\<exists>img. frame default_flags = Some (Inr img) \<and>
      Rect img = \<lparr>MinX = 0, MinY = 0, MaxX = 2 * size' default_flags + 1,
                  MaxY = 2 * size' default_flags - 1\<rparr> \<and>
      (\<exists>lisa. sweep default_flags 0 (replicate (nat (2 * size' default_flags))
                (replicate (nat (2 * size' default_flags)) 0)) = Some (Inr lisa) \<and>
         length lisa = nat (2 * size' default_flags) \<and> is_square lisa \<and>
         (\<forall>x y. In x y (Rect img) \<longrightarrow>
            At img x y = Some (palette !
              (if x < 2 * size' default_flags then nat (lisa ! nat x ! nat y) else 0)))))"
proof -
  have h: "1 \<le> size' default_flags" "size' default_flags < 2 ^ 30"
    by (simp_all add: default_flags_def)
  have k: "0 \<le> size' default_flags" "size' default_flags < 2 ^ 23"
    "2 powi (- 1022) \<le> res default_flags"
    "limit default_flags \<le> 2 ^ 50 * res default_flags"
    using default_flags_ok by simp_all
  obtain img where f: "frame default_flags = Some (Inr img)"
    using frame_returns[OF k] by blast
  from frame_pixels[OF h f] f h show ?thesis by blast
qed

section \<open>Properties of the animation\<close>




text \<open>C7. Parameter drift law: frame \<open>i\<close> is built with
  \<open>xfreq = initialXfreq + i xfreqInc\<close>, and likewise \<open>yfreq\<close>, \<open>xphase\<close> and
  \<open>yphase\<close>. The code adds the increment once per frame, and each addition is rounded to
  \<^verbatim>\<open>float64\<close>. With the default flags and four frames, the phase \<open>yphase\<close>
  starts at 0 and grows by the \<^verbatim>\<open>float64\<close> nearest to 0.01,
  \<open>5764607523034235 / 2 ^ 59\<close>; three times that number needs 54 bits, so the third
  addition is rounded: frame 3 is built with \<open>8646911284551352 / 2 ^ 58\<close>, which is not the
  sum.\<close>

theorem drift_default_yphase_counterexample:
  "yphase ((advance ^^ 3) (default_flags\<lparr>nframes := 4\<rparr>)) = 8646911284551352 / 2 ^ 58 \<and>
   yphase (default_flags\<lparr>nframes := 4\<rparr>) + 3 * yphaseInc (default_flags\<lparr>nframes := 4\<rparr>) =
     17293822569102705 / 2 ^ 59 \<and>
   yphase ((advance ^^ 3) (default_flags\<lparr>nframes := 4\<rparr>)) \<noteq>
     yphase (default_flags\<lparr>nframes := 4\<rparr>) + 3 * yphaseInc (default_flags\<lparr>nframes := 4\<rparr>)"
proof -
  define a :: real where "a = 5764607523034235 / 2 ^ 59"
  define G where "G = default_flags\<lparr>nframes := 4\<rparr>"
  have inc: "yphaseInc G = a" "yphase G = 0"
    using round64_yphaseInc by (simp_all add: G_def default_flags_def a_def)
  have r1: "round64 (0 + a) = a"
    unfolding a_def using round64_dyadic[of 5764607523034235 "- 59"]
    by (simp add: power_int_minus)
  have r2: "round64 (a + a) = a + a"
    unfolding a_def using round64_dyadic[of 5764607523034235 "- 58"]
    by (simp add: power_int_minus)
  have "rne ((a + a + a) / 2 powi (- 6 - 52)) = 8646911284551352"
    unfolding a_def using rne_tie[of "(3 * (5764607523034235 / 2 ^ 59)) * 2 ^ 58" 8646911284551352]
    by (simp add: power_int_minus)
  from round64_eval[of "- 6" "a + a + a", OF _ _ _ this]
  have r3: "round64 (a + a + a) = 8646911284551352 / 2 ^ 58"
    unfolding a_def by (simp add: power_int_minus)
  have "yphase ((advance ^^ 3) G) = ((\<lambda>v. round64 (v + yphaseInc G)) ^^ 3) (yphase G)"
    using advance_iter[of 3 G] by (simp add: drift_def)
  also have "\<dots> = round64 (round64 (round64 (0 + a) + a) + a)"
    by (simp only: inc numeral_3_eq_3 funpow.simps o_apply id_apply)
  also have "\<dots> = 8646911284551352 / 2 ^ 58"
    by (simp only: r1 r2 r3)
  finally have y: "yphase ((advance ^^ 3) G) = 8646911284551352 / 2 ^ 58" .
  have s: "yphase G + 3 * yphaseInc G = 17293822569102705 / 2 ^ 59"
    by (simp add: inc a_def)
  have "(8646911284551352::real) / 2 ^ 58 \<noteq> 17293822569102705 / 2 ^ 59" by simp
  with y s show ?thesis unfolding G_def by simp
qed

text \<open>C7, as the code has it. Frame \<open>i\<close> of a run is built from the flags advanced
  \<open>i\<close> times, in which each of the four parameters is the initial value with the
  increment added \<open>i\<close> times, every sum rounded to \<^verbatim>\<open>float64\<close> (as long as the
  sums stay finite). This is \<open>initial + i inc\<close> when every partial sum
  \<open>initial + k inc\<close>, \<open>k \<le> i\<close>, is a finite \<^verbatim>\<open>float64\<close>, as with the default
  increment 0.\<close>

theorem parameter_drift:
  "(\<forall>g' anim printed err k.
      lissajous g EncodeAll out = Some (Inr (g', anim, printed, err)) \<and>
      k < length (Image anim) \<longrightarrow>
      frame ((advance ^^ k) g) = Some (Inr (Image anim ! k))) \<and>
   ((\<forall>k\<le>i. \<bar>drift (xfreq g) (xfreqInc g) k\<bar> < 2 ^ 1024) \<longrightarrow>
      xfreq ((advance ^^ i) g) = drift (xfreq g) (xfreqInc g) i) \<and>
   ((\<forall>k\<le>i. \<bar>drift (yfreq g) (yfreqInc g) k\<bar> < 2 ^ 1024) \<longrightarrow>
      yfreq ((advance ^^ i) g) = drift (yfreq g) (yfreqInc g) i) \<and>
   ((\<forall>k\<le>i. \<bar>drift (xphase g) (xphaseInc g) k\<bar> < 2 ^ 1024) \<longrightarrow>
      xphase ((advance ^^ i) g) = drift (xphase g) (xphaseInc g) i) \<and>
   ((\<forall>k\<le>i. \<bar>drift (yphase g) (yphaseInc g) k\<bar> < 2 ^ 1024) \<longrightarrow>
      yphase ((advance ^^ i) g) = drift (yphase g) (yphaseInc g) i) \<and>
   ((\<forall>k\<le>i. is_float64 (xfreq g + real k * xfreqInc g)) \<longrightarrow>
      xfreq ((advance ^^ i) g) = xfreq g + real i * xfreqInc g) \<and>
   ((\<forall>k\<le>i. is_float64 (yfreq g + real k * yfreqInc g)) \<longrightarrow>
      yfreq ((advance ^^ i) g) = yfreq g + real i * yfreqInc g) \<and>
   ((\<forall>k\<le>i. is_float64 (xphase g + real k * xphaseInc g)) \<longrightarrow>
      xphase ((advance ^^ i) g) = xphase g + real i * xphaseInc g) \<and>
   ((\<forall>k\<le>i. is_float64 (yphase g + real k * yphaseInc g)) \<longrightarrow>
      yphase ((advance ^^ i) g) = yphase g + real i * yphaseInc g)"
proof -
  note it = advance_iter[of i g]
  have 1: "\<forall>g' anim printed err k.
      lissajous g EncodeAll out = Some (Inr (g', anim, printed, err)) \<and>
      k < length (Image anim) \<longrightarrow>
      frame ((advance ^^ k) g) = Some (Inr (Image anim ! k))"
    using lissajous_frames by blast
  have 2: "xfreq ((advance ^^ i) g) = xfreq g + real i * xfreqInc g"
    if "\<forall>k\<le>i. is_float64 (xfreq g + real k * xfreqInc g)"
    using it drift_exact[OF that] by simp
  have 3: "yfreq ((advance ^^ i) g) = yfreq g + real i * yfreqInc g"
    if "\<forall>k\<le>i. is_float64 (yfreq g + real k * yfreqInc g)"
    using it drift_exact[OF that] by simp
  have 4: "xphase ((advance ^^ i) g) = xphase g + real i * xphaseInc g"
    if "\<forall>k\<le>i. is_float64 (xphase g + real k * xphaseInc g)"
    using it drift_exact[OF that] by simp
  have 5: "yphase ((advance ^^ i) g) = yphase g + real i * yphaseInc g"
    if "\<forall>k\<le>i. is_float64 (yphase g + real k * yphaseInc g)"
    using it drift_exact[OF that] by simp
  from 1 it 2 3 4 5 show ?thesis by blast
qed

theorem parameter_drift_witness:
  "(\<exists>g' anim printed.
      lissajous default_flags (\<lambda>w a. None) NilFile = Some (Inr (g', anim, printed, None)) \<and>
      0 < length (Image anim) \<and>
      frame ((advance ^^ 0) default_flags) = Some (Inr (Image anim ! 0))) \<and>
   list_all (\<lambda>k. is_float64 (xfreq default_flags + real k * xfreqInc default_flags))
     [0, 1, 2] \<and>
   list_all (\<lambda>k. \<bar>drift (xfreq default_flags) (xfreqInc default_flags) k\<bar> < 2 ^ 1024)
     [0, 1, 2] \<and>
   xfreq ((advance ^^ 2) default_flags) = drift (xfreq default_flags) (xfreqInc default_flags) 2 \<and>
   xfreq ((advance ^^ 2) default_flags) = 5 \<and>
   list_all (\<lambda>k. is_float64 (yfreq default_flags + real k * yfreqInc default_flags))
     [0, 1, 2] \<and>
   list_all (\<lambda>k. \<bar>drift (yfreq default_flags) (yfreqInc default_flags) k\<bar> < 2 ^ 1024)
     [0, 1, 2] \<and>
   yfreq ((advance ^^ 2) default_flags) = drift (yfreq default_flags) (yfreqInc default_flags) 2 \<and>
   yfreq ((advance ^^ 2) default_flags) = 4 \<and>
   list_all (\<lambda>k. is_float64 (xphase default_flags + real k * xphaseInc default_flags))
     [0, 1, 2] \<and>
   list_all (\<lambda>k. \<bar>drift (xphase default_flags) (xphaseInc default_flags) k\<bar> < 2 ^ 1024)
     [0, 1, 2] \<and>
   xphase ((advance ^^ 2) default_flags) =
     drift (xphase default_flags) (xphaseInc default_flags) 2 \<and>
   xphase ((advance ^^ 2) default_flags) = 0 \<and>
   list_all (\<lambda>k. is_float64 (yphase default_flags + real k * yphaseInc default_flags))
     [0, 1, 2] \<and>
   list_all (\<lambda>k. \<bar>drift (yphase default_flags) (yphaseInc default_flags) k\<bar> < 2 ^ 1024)
     [0, 1, 2] \<and>
   yphase ((advance ^^ 2) default_flags) =
     drift (yphase default_flags) (yphaseInc default_flags) 2 \<and>
   yphase ((advance ^^ 2) default_flags) = 5764607523034235 / 2 ^ 58"
proof -
  note t = parameter_drift[of default_flags "\<lambda>w a. None" NilFile 2]
  have k: "0 \<le> size' default_flags" "size' default_flags < 2 ^ 23"
    "2 powi (- 1022) \<le> res default_flags"
    "limit default_flags \<le> 2 ^ 50 * res default_flags"
    using default_flags_ok by simp_all
  from lissajous_returns[OF k, of "\<lambda>w a. None" NilFile] obtain g' anim printed where
    r: "lissajous default_flags (\<lambda>w a. None) NilFile = Some (Inr (g', anim, printed, None))"
    by auto
  from lissajous_counts[OF r] have len: "0 < length (Image anim)"
    by (simp add: default_flags_def)
  with t r have f: "frame ((advance ^^ 0) default_flags) = Some (Inr (Image anim ! 0))"
    by blast
  have le2: "k = 0 \<or> k = 1 \<or> k = 2" if "k \<le> 2" for k :: nat using that by auto
  have small: "\<bar>x\<bar> < 2 ^ 1024" if "\<bar>x\<bar> \<le> 5" for x :: real
  proof -
    have "(5::real) < 2 ^ 1024" by simp
    with that show ?thesis by linarith
  qed
  have v: "xfreq default_flags = 5" "xfreqInc default_flags = 0" "yfreq default_flags = 4"
    "yfreqInc default_flags = 0" "xphase default_flags = 0" "xphaseInc default_flags = 0"
    "yphase default_flags = 0" "yphaseInc default_flags = 5764607523034235 / 2 ^ 59"
    using round64_yphaseInc by (simp_all add: default_flags_def)
  have e1: "\<forall>k\<le>2. is_float64 (xfreq default_flags + real k * xfreqInc default_flags)"
    using round64_of_int[of 5] small[of 5] by (simp add: v is_float64_def)
  have e2: "\<forall>k\<le>2. is_float64 (yfreq default_flags + real k * yfreqInc default_flags)"
    using round64_of_int[of 4] small[of 4] by (simp add: v is_float64_def)
  have e3: "\<forall>k\<le>2. is_float64 (xphase default_flags + real k * xphaseInc default_flags)"
    by (simp add: v round64_zero is_float64_def)
  have d: "is_float64 (real k * (5764607523034235 / 2 ^ 59))" if "k \<le> 2" for k
  proof -
    have "\<bar>real k * (5764607523034235 / 2 ^ 59)\<bar> \<le> 5" using that by (simp add: abs_mult)
    then have "\<bar>real k * (5764607523034235 / 2 ^ 59)\<bar> < 2 ^ 1024" by (rule small)
    moreover have "round64 (real k * (5764607523034235 / 2 ^ 59)) =
        real k * (5764607523034235 / 2 ^ 59)"
      using le2[OF that] round64_dyadic[of 5764607523034235 "- 59"]
        round64_dyadic[of 5764607523034235 "- 58"]
      by (auto simp: round64_zero power_int_minus)
    ultimately show ?thesis by (simp only: is_float64_def)
  qed
  have e4: "\<forall>k\<le>2. is_float64 (yphase default_flags + real k * yphaseInc default_flags)"
    using d by (simp add: v)
  have l: "list_all P [0, 1, 2]" if "\<forall>k\<le>2. P k" for P :: "nat \<Rightarrow> bool"
    using that by simp
  note f1 = drift_finite[OF e1] and f2 = drift_finite[OF e2] and f3 = drift_finite[OF e3]
    and f4 = drift_finite[OF e4]
  from t e1 have x1: "xfreq ((advance ^^ 2) default_flags) = 5" by (simp add: v)
  from t e2 have x2: "yfreq ((advance ^^ 2) default_flags) = 4" by (simp add: v)
  from t e3 have x3: "xphase ((advance ^^ 2) default_flags) = 0" by (simp add: v)
  from t e4 have x4: "yphase ((advance ^^ 2) default_flags) = 5764607523034235 / 2 ^ 58"
    by (simp add: v)
  from t f1 have y1: "xfreq ((advance ^^ 2) default_flags) =
      drift (xfreq default_flags) (xfreqInc default_flags) 2" by blast
  from t f2 have y2: "yfreq ((advance ^^ 2) default_flags) =
      drift (yfreq default_flags) (yfreqInc default_flags) 2" by blast
  from t f3 have y3: "xphase ((advance ^^ 2) default_flags) =
      drift (xphase default_flags) (xphaseInc default_flags) 2" by blast
  from t f4 have y4: "yphase ((advance ^^ 2) default_flags) =
      drift (yphase default_flags) (yphaseInc default_flags) 2" by blast
  from r len f have a: "\<exists>g' anim printed.
      lissajous default_flags (\<lambda>w a. None) NilFile = Some (Inr (g', anim, printed, None)) \<and>
      0 < length (Image anim) \<and>
      frame ((advance ^^ 0) default_flags) = Some (Inr (Image anim ! 0))" by blast
  from a l[OF e1] l[OF f1] y1 x1 l[OF e2] l[OF f2] y2 x2 l[OF e3] l[OF f3] y3 x3
    l[OF e4] l[OF f4] y4 x4
  show ?thesis by (intro conjI)
qed




text \<open>C9. Termination: for every configuration with \<open>res > 0\<close> and finite
  \<open>cycles\<close> the sweep terminates. In \<^verbatim>\<open>float64\<close> the step \<open>t += res\<close> leaves
  \<open>t\<close> as it is once \<open>res\<close> is below half the spacing of the floats at \<open>t\<close>. With
  \<open>res = 1\<close> and \<open>cycles = 2 ^ 53\<close> the bound of the loop is above \<open>2 ^ 53\<close>, and
  \<open>t\<close> counts up to \<open>2 ^ 53\<close>, where \<open>2 ^ 53 + 1\<close> rounds back to \<open>2 ^ 53\<close>: the
  sweep never returns, and neither does the frame.\<close>

theorem sweep_stalls_counterexample:
  "0 < res (default_flags\<lparr>cycles := 2 ^ 53, res := 1\<rparr>) \<and>
   round64 (2 ^ 53 + res (default_flags\<lparr>cycles := 2 ^ 53, res := 1\<rparr>)) = 2 ^ 53 \<and>
   2 ^ 53 < limit (default_flags\<lparr>cycles := 2 ^ 53, res := 1\<rparr>) \<and>
   sweep (default_flags\<lparr>cycles := 2 ^ 53, res := 1\<rparr>) 0 (replicate 200 (replicate 200 0)) = None \<and>
   frame (default_flags\<lparr>cycles := 2 ^ 53, res := 1\<rparr>) = None"
proof -
  define G where "G = default_flags\<lparr>cycles := 2 ^ 53, res := 1\<rparr>"
  have rG: "res G = 1" and sG: "size' G = 100" by (simp_all add: G_def default_flags_def)
  have lG: "limit G = 884279719003555 * 2 ^ 6" unfolding G_def by (rule stall_limit)
  have sq: "is_square (replicate 200 (replicate 200 (0::int)))"
    by (simp add: is_square_def list_all_length)
  have t0: "\<exists>k::nat. (0::real) = real k \<and> k \<le> 2 ^ 53" by (intro exI[of _ 0]) simp
  have s: "sweep G 0 (replicate 200 (replicate 200 0)) = None"
  proof (cases "sweep G 0 (replicate 200 (replicate 200 0))")
    case None
    then show ?thesis .
  next
    case (Some r)
    from sweep_stalls_imp[OF Some] t0 sq show ?thesis by (simp add: G_def)
  qed
  have n: "\<exists>img. new_image (size' G) = Inr img" using new_image_valid[of "size' G"] sG by auto
  have l: "make_lisa (mul64 2 (size' G)) = Inr (replicate 200 (replicate 200 0))"
    by (simp add: sG make_lisa_def mul64_def wrap64_def maxAlloc_def)
  from n l s have f: "frame G = None" by (auto simp: frame_def)
  have "round64 (2 ^ 53 + res G) = 2 ^ 53" using round64_succ_2_53 by (simp add: rG)
  moreover have "2 ^ 53 < limit G" by (simp add: lG)
  ultimately show ?thesis using s f rG unfolding G_def by simp
qed

text \<open>C9, as the code has it. The sweep terminates when the resolution is a normal
  \<^verbatim>\<open>float64\<close> (at least \<open>2 ^ - 1022\<close>) of at most \<open>2 ^ 900\<close> and the bound of the
  loop is at most \<open>2 ^ 50\<close> times the resolution: then every step moves \<open>t\<close> forward by
  at least half the resolution, the body runs at most \<open>ceil(2 limit / res)\<close> times, and on
  a square grid the sweep returns a grid.\<close>

theorem sweep_terminates:
  assumes "2 powi (- 1022) \<le> res g" and "res g \<le> 2 ^ 900"
    and "limit g \<le> 2 ^ 50 * res g"
  shows "\<exists>ts. sweep_samples g 0 = Some ts \<and>
           length ts \<le> nat \<lceil>2 * limit g / res g\<rceil> \<and>
           (\<forall>lisa. sweep g 0 lisa = Some (paint_calls (map (sample g) ts) lisa 15) \<and>
              (is_square lisa \<longrightarrow> (\<exists>lisa'. sweep g 0 lisa = Some (Inr lisa'))))"
proof -
  from samples_terminate[OF assms(1,3), of 0] obtain ts where
    ts: "sweep_samples g 0 = Some ts" "length ts \<le> nat \<lceil>2 * limit g / res g\<rceil>"
    by auto
  have a: "sweep g 0 lisa = Some (paint_calls (map (sample g) ts) lisa 15)" for lisa
    using ts(1) by (rule sweep_of_samples)
  have b: "\<exists>lisa'. sweep g 0 lisa = Some (Inr lisa')" if "is_square lisa" for lisa
    using paint_calls_square[OF that, of "map (sample g) ts" 15] a[of lisa] by auto
  from ts a b show ?thesis by blast
qed

theorem sweep_terminates_witness:
  "2 powi (- 1022) \<le> res default_flags \<and> res default_flags \<le> 2 ^ 900 \<and>
   limit default_flags \<le> 2 ^ 50 * res default_flags \<and>
   is_square (replicate 200 (replicate 200 0)) \<and>
   (\<exists>ts. sweep_samples default_flags 0 = Some ts \<and>
      length ts \<le> nat \<lceil>2 * limit default_flags / res default_flags\<rceil> \<and>
      (\<exists>lisa'. sweep default_flags 0 (replicate 200 (replicate 200 0)) = Some (Inr lisa')))"
proof -
  have h: "2 powi (- 1022) \<le> res default_flags" "res default_flags \<le> 2 ^ 900"
    "limit default_flags \<le> 2 ^ 50 * res default_flags"
    using default_flags_ok by simp_all
  have sq: "is_square (replicate 200 (replicate 200 (0::int)))"
    by (simp add: is_square_def list_all_length)
  from sweep_terminates[OF h] sq h show ?thesis by blast
qed

text \<open>C1. When the output file cannot be created the error is reported and rendering does
  not proceed. In \<open>main\<close> the branch for the error prints the message and falls through:
  with the default flags and an output path that cannot be created, the frame is still built and
  \<open>EncodeAll\<close> is still called, on the nil file.\<close>

theorem main_renders_after_create_error:
  "\<exists>img. main (default_flags\<lparr>outFile := ''/nonexistent/out.gif''\<rparr>)
           (\<lambda>name. Inl ''no such file or directory'') EncodeAll =
     Some (Inr (NilFile, \<lparr>Image = [img], Delay = [8], LoopCount = 1\<rparr>,
       [CouldNotOpen ''/nonexistent/out.gif'' ''no such file or directory'',
        Rendered 0 1, Rendered 1 1] @
       (case EncodeAll NilFile \<lparr>Image = [img], Delay = [8], LoopCount = 1\<rparr> of
          None \<Rightarrow> [] | Some e \<Rightarrow> [ErrorEncoding e])))"
proof -
  define g where "g = default_flags\<lparr>outFile := ''/nonexistent/out.gif''\<rparr>"
  have "limit g = limit default_flags" "res g = res default_flags" "size' g = size' default_flags"
    by (simp_all add: g_def limit_def)
  then have h: "0 \<le> size' g" "size' g < 2 ^ 23" "2 powi (- 1022) \<le> res g"
    "limit g \<le> 2 ^ 50 * res g"
    using default_flags_ok by simp_all
  obtain img where f: "frame g = Some (Inr img)" using frame_returns[OF h] by blast
  have v: "nframes g = 1" "delay g = 8" "outFile g = ''/nonexistent/out.gif''"
    by (simp_all add: g_def default_flags_def)
  have l: "lissajous_loop 0 g \<lparr>Image = [], Delay = [], LoopCount = 1\<rparr> [] =
      Some (Inr (advance g, \<lparr>Image = [img], Delay = [8], LoopCount = 1\<rparr>, [Rendered 0 1]))"
    by (subst lissajous_loop.simps, simp add: v f, subst lissajous_loop.simps, simp add: v)
  have "main g (\<lambda>name. Inl ''no such file or directory'') EncodeAll =
     Some (Inr (NilFile, \<lparr>Image = [img], Delay = [8], LoopCount = 1\<rparr>,
       [CouldNotOpen ''/nonexistent/out.gif'' ''no such file or directory'',
        Rendered 0 1, Rendered 1 1] @
       (case EncodeAll NilFile \<lparr>Image = [img], Delay = [8], LoopCount = 1\<rparr> of
          None \<Rightarrow> [] | Some e \<Rightarrow> [ErrorEncoding e])))"
    by (simp add: main_def lissajous_def v l)
  then show ?thesis unfolding g_def by blast
qed

end
